theory Spec2Isabelle
  imports Main "HOL-Library.Monad_Syntax"
begin

section \<open>Vectors indexed by a C++ int\<close>

text \<open>
  The program keeps every table in a \<^verbatim>\<open>std::vector\<close> and indexes it with \<^verbatim>\<open>int\<close>
  values, among them the sentinel \<^verbatim>\<open>-1\<close>.  \<^verbatim>\<open>operator[]\<close> outside the vector is
  undefined behaviour; the model makes it the value \<open>None\<close>, which every caller
  passes on.
\<close>

definition vec_at :: "'a list \<Rightarrow> int \<Rightarrow> 'a option" where
  "vec_at xs i = (if 0 \<le> i \<and> i < int (length xs) then Some (xs ! nat i) else None)"

definition vec_set :: "'a list \<Rightarrow> int \<Rightarrow> 'a \<Rightarrow> 'a list option" where
  "vec_set xs i v = (if 0 \<le> i \<and> i < int (length xs) then Some (xs[nat i := v]) else None)"

section \<open>Mesh topology (meshData.h) and the seed (selection.h)\<close>

text \<open>
  Modelled from the spec: the declarations of \<^verbatim>\<open>MeshData\<close>, \<^verbatim>\<open>VertexData\<close>,
  \<^verbatim>\<open>EdgeData\<close>, \<^verbatim>\<open>FaceData\<close> and \<^verbatim>\<open>ComponentSelection\<close> are not part of
  polySymmetry.cpp.  The records hold the fields that polySymmetry.cpp reads.
  \<open>faceVertexSiblings\<close> is keyed by face index; a face without an entry has no
  siblings.
\<close>

record VertexData =
  vConnectedVertices :: "int list"
  vConnectedEdges :: "int list"
  faceVertexSiblings :: "(int \<times> int list) list"

record EdgeData =
  eConnectedVertices :: "int list"
  eConnectedFaces :: "int list"

record FaceData =
  fConnectedVertices :: "int list"
  fConnectedEdges :: "int list"

record MeshData =
  numberOfVertices :: nat
  numberOfEdges :: nat
  numberOfFaces :: nat
  vertexData :: "VertexData list"
  edgeData :: "EdgeData list"
  faceData :: "FaceData list"

record ComponentSelection =
  edgeIndices :: "int \<times> int"
  faceIndices :: "int \<times> int"
  vertexIndices :: "int \<times> int"
  leftVertexIndex :: int

definition siblingsOn :: "VertexData \<Rightarrow> int \<Rightarrow> int list" where
  "siblingsOn vd faceIndex =
     (case map_of (faceVertexSiblings vd) faceIndex of None \<Rightarrow> [] | Some vs \<Rightarrow> vs)"

text \<open>
  Modelled from the spec: \<^verbatim>\<open>intersection\<close> and \<^verbatim>\<open>contains\<close> come from util.h, which is
  not part of polySymmetry.cpp.  The spec calls the first the set intersection of two
  index lists and uses the second as a membership test.
\<close>

definition intersection :: "int list \<Rightarrow> int list \<Rightarrow> int list" where
  "intersection a b = filter (\<lambda>x. x \<in> set b) (remdups a)"

definition contains :: "int list \<Rightarrow> int \<Rightarrow> bool" where
  "contains xs x = (x \<in> set xs)"

section \<open>The symmetry data (class PolySymmetryData)\<close>

record PolySymmetryData =
  examinedEdges :: "bool list"
  examinedFaces :: "bool list"
  examinedVertices :: "bool list"
  vertexSymmetryIndices :: "int list"
  edgeSymmetryIndices :: "int list"
  faceSymmetryIndices :: "int list"
  vertexSides :: "int list"
  edgeSides :: "int list"
  faceSides :: "int list"
  leftSideVertexIndices :: "int list"

abbreviation (input) LEFT :: int where "LEFT \<equiv> 1"
abbreviation (input) RIGHT :: int where "RIGHT \<equiv> - 1"
abbreviation (input) CENTER :: int where "CENTER \<equiv> 0"

definition reset :: "MeshData \<Rightarrow> PolySymmetryData" where
  "reset m =
     \<lparr> examinedEdges = replicate (numberOfEdges m) False,
       examinedFaces = replicate (numberOfFaces m) False,
       examinedVertices = replicate (numberOfVertices m) False,
       vertexSymmetryIndices = replicate (numberOfVertices m) (- 1),
       edgeSymmetryIndices = replicate (numberOfEdges m) (- 1),
       faceSymmetryIndices = replicate (numberOfFaces m) (- 1),
       vertexSides = replicate (numberOfVertices m) (- 1),
       edgeSides = replicate (numberOfEdges m) (- 1),
       faceSides = replicate (numberOfFaces m) (- 1),
       leftSideVertexIndices = [] \<rparr>"

subsection \<open>Marking a pair\<close>

text \<open>
  The three \<^verbatim>\<open>markSymmetrical...\<close> members run the same four assignments on the
  partner table and the examined flags of their component kind.
\<close>

definition markPair :: "int \<Rightarrow> int \<Rightarrow> int list \<times> bool list \<Rightarrow> (int list \<times> bool list) option" where
  "markPair i0 i1 t =
     do { sym1 \<leftarrow> vec_set (fst t) i0 i1;
          sym2 \<leftarrow> vec_set sym1 i1 i0;
          ex1 \<leftarrow> vec_set (snd t) i0 True;
          ex2 \<leftarrow> vec_set ex1 i1 True;
          Some (sym2, ex2) }"

definition markSymmetricalVertices :: "int \<Rightarrow> int \<Rightarrow> PolySymmetryData \<Rightarrow> PolySymmetryData option" where
  "markSymmetricalVertices i0 i1 s =
     (case markPair i0 i1 (vertexSymmetryIndices s, examinedVertices s) of
        None \<Rightarrow> None
      | Some t \<Rightarrow> Some (s\<lparr>vertexSymmetryIndices := fst t, examinedVertices := snd t\<rparr>))"

definition markSymmetricalEdges :: "int \<Rightarrow> int \<Rightarrow> PolySymmetryData \<Rightarrow> PolySymmetryData option" where
  "markSymmetricalEdges i0 i1 s =
     (case markPair i0 i1 (edgeSymmetryIndices s, examinedEdges s) of
        None \<Rightarrow> None
      | Some t \<Rightarrow> Some (s\<lparr>edgeSymmetryIndices := fst t, examinedEdges := snd t\<rparr>))"

definition markSymmetricalFaces :: "int \<Rightarrow> int \<Rightarrow> PolySymmetryData \<Rightarrow> PolySymmetryData option" where
  "markSymmetricalFaces i0 i1 s =
     (case markPair i0 i1 (faceSymmetryIndices s, examinedFaces s) of
        None \<Rightarrow> None
      | Some t \<Rightarrow> Some (s\<lparr>faceSymmetryIndices := fst t, examinedFaces := snd t\<rparr>))"

subsection \<open>Looking for unexamined neighbours\<close>

text \<open>
  \<^verbatim>\<open>getUnexaminedFace\<close> and \<^verbatim>\<open>getUnexaminedVertexSibling\<close> both walk a list of
  indices and return the first one whose examined flag is false, or \<open>-1\<close>.
\<close>

fun firstUnexamined :: "bool list \<Rightarrow> int list \<Rightarrow> int option" where
  "firstUnexamined ex [] = Some (- 1)"
| "firstUnexamined ex (i # rest) =
     (case vec_at ex i of
        None \<Rightarrow> None
      | Some b \<Rightarrow> if b then firstUnexamined ex rest else Some i)"

definition getUnexaminedFace :: "MeshData \<Rightarrow> int \<Rightarrow> PolySymmetryData \<Rightarrow> int option" where
  "getUnexaminedFace m edgeIndex s =
     (case vec_at (edgeData m) edgeIndex of
        None \<Rightarrow> None
      | Some ed \<Rightarrow> firstUnexamined (examinedFaces s) (eConnectedFaces ed))"

definition getUnexaminedVertexSibling :: "MeshData \<Rightarrow> int \<Rightarrow> int \<Rightarrow> PolySymmetryData \<Rightarrow> int option" where
  "getUnexaminedVertexSibling m vertexIndex faceIndex s =
     (case vec_at (vertexData m) vertexIndex of
        None \<Rightarrow> None
      | Some vd \<Rightarrow> firstUnexamined (examinedVertices s) (siblingsOn vd faceIndex))"

text \<open>The loop of \<^verbatim>\<open>getUnexaminedFaces\<close> over the shared faces, on \<open>(face0, face1)\<close>.\<close>

fun sharedUnexamined :: "bool list \<Rightarrow> int list \<Rightarrow> int \<times> int \<Rightarrow> (int \<times> int) option" where
  "sharedUnexamined ex [] fp = Some fp"
| "sharedUnexamined ex (faceIndex # rest) (face0, face1) =
     (case vec_at ex faceIndex of
        None \<Rightarrow> None
      | Some b \<Rightarrow>
          if b then sharedUnexamined ex rest (face0, face1)
          else if face0 = - 1 then sharedUnexamined ex rest (faceIndex, face1)
          else if face1 = - 1 then sharedUnexamined ex rest (face0, faceIndex)
          else sharedUnexamined ex rest (face0, face1))"

definition getUnexaminedFaces :: "MeshData \<Rightarrow> int \<times> int \<Rightarrow> PolySymmetryData \<Rightarrow> (int \<times> int) option" where
  "getUnexaminedFaces m edgePair s =
     do { ed0 \<leftarrow> vec_at (edgeData m) (fst edgePair);
          ed1 \<leftarrow> vec_at (edgeData m) (snd edgePair);
          let sharedFaces = intersection (eConnectedFaces ed0) (eConnectedFaces ed1) in
          if length sharedFaces > 0 then sharedUnexamined (examinedFaces s) sharedFaces (- 1, - 1)
          else do { face0 \<leftarrow> getUnexaminedFace m (fst edgePair) s;
                    face1 \<leftarrow> getUnexaminedFace m (snd edgePair) s;
                    Some (face0, face1) } }"

definition unexamined :: "bool list \<Rightarrow> nat" where
  "unexamined ex = length (filter (\<lambda>b. \<not> b) ex)"


lemma unexamined_update_le: "unexamined (ex[i := True]) \<le> unexamined ex"
proof (induction ex arbitrary: i)
  case Nil
  show ?case by (simp add: unexamined_def)
next
  case (Cons b bs)
  show ?case using Cons [of "i - 1"] by (cases i) (auto simp: unexamined_def)
qed

lemma unexamined_update_less:
  "i < length ex \<Longrightarrow> \<not> ex ! i \<Longrightarrow> unexamined (ex[i := True]) < unexamined ex"
proof (induction ex arbitrary: i)
  case Nil
  then show ?case by simp
next
  case (Cons b bs)
  show ?case
  proof (cases i)
    case 0
    with Cons.prems show ?thesis by (simp add: unexamined_def)
  next
    case (Suc j)
    with Cons.prems Cons.IH [of j] show ?thesis by (simp add: unexamined_def)
  qed
qed

lemma vec_set_True_le: "vec_set ex i True = Some ex' \<Longrightarrow> unexamined ex' \<le> unexamined ex"
  by (auto simp: vec_set_def unexamined_update_le split: if_splits)

lemma vec_set_True_less:
  "vec_set ex i True = Some ex' \<Longrightarrow> vec_at ex i = Some False \<Longrightarrow> unexamined ex' < unexamined ex"
  by (auto simp: vec_set_def vec_at_def unexamined_update_less split: if_splits)

lemma markPair_unexamined_le:
  "markPair i0 i1 t = Some t' \<Longrightarrow> unexamined (snd t') \<le> unexamined (snd t)"
  by (auto simp: markPair_def split: bind_splits dest!: vec_set_True_le)

lemma markPair_unexamined_less:
  assumes "markPair i0 i1 t = Some t'" and "vec_at (snd t) i0 = Some False"
  shows "unexamined (snd t') < unexamined (snd t)"
proof -
  from assms(1) obtain ex1 where a: "vec_set (snd t) i0 True = Some ex1"
    and b: "vec_set ex1 i1 True = Some (snd t')"
    by (auto simp: markPair_def split: bind_splits)
  from vec_set_True_less [OF a assms(2)] vec_set_True_le [OF b] show ?thesis by simp
qed

lemma firstUnexamined_found:
  "firstUnexamined ex vs = Some v \<Longrightarrow> v \<noteq> - 1 \<Longrightarrow> vec_at ex v = Some False \<and> v \<in> set vs"
  by (induction vs) (auto split: option.splits if_splits)

subsection \<open>Face vertex completion\<close>

text \<open>The first loop of \<^verbatim>\<open>findSymmetricalVerticesOnFace\<close>: the examined vertices of a face.\<close>

fun examinedOnFace :: "bool list \<Rightarrow> int list \<Rightarrow> int list option" where
  "examinedOnFace ex [] = Some []"
| "examinedOnFace ex (v # rest) =
     (case vec_at ex v of
        None \<Rightarrow> None
      | Some b \<Rightarrow>
          (case examinedOnFace ex rest of
             None \<Rightarrow> None
           | Some q \<Rightarrow> Some (if b then v # q else q)))"

text \<open>The while loop over \<^verbatim>\<open>faceVerticesQueue\<close>; the queue's front is the head of the list.\<close>

function walkFaceVertices ::
  "MeshData \<Rightarrow> int \<times> int \<Rightarrow> int list \<Rightarrow> PolySymmetryData \<Rightarrow> PolySymmetryData option" where
  "walkFaceVertices m facePair [] s = Some s"
| "walkFaceVertices m facePair (vertex0 # q) s =
     (case vec_at (vertexSymmetryIndices s) vertex0 of
        None \<Rightarrow> None
      | Some vertex1 \<Rightarrow>
         (case getUnexaminedVertexSibling m vertex0 (fst facePair) s of
            None \<Rightarrow> None
          | Some nextVertex0 \<Rightarrow>
             (case getUnexaminedVertexSibling m vertex1 (snd facePair) s of
                None \<Rightarrow> None
              | Some nextVertex1 \<Rightarrow>
                  if nextVertex0 = - 1 \<or> nextVertex1 = - 1 then walkFaceVertices m facePair q s
                  else (case markSymmetricalVertices nextVertex0 nextVertex1 s of
                          None \<Rightarrow> None
                        | Some s' \<Rightarrow> walkFaceVertices m facePair (q @ [nextVertex0]) s'))))"
  by pat_completeness auto
termination
proof (relation "measure (\<lambda>(m, facePair, q, s). 2 * unexamined (examinedVertices s) + length q)")
  show "wf (measure (\<lambda>(m, facePair, q, s). 2 * unexamined (examinedVertices s) + length q))"
    by simp
next
  fix m :: MeshData and facePair :: "int \<times> int" and vertex0 :: int and q :: "int list"
    and s :: PolySymmetryData
  show "((m, facePair, q, s), m, facePair, vertex0 # q, s)
          \<in> measure (\<lambda>(m, facePair, q, s). 2 * unexamined (examinedVertices s) + length q)"
    by simp
next
  fix m :: MeshData and facePair :: "int \<times> int" and vertex0 :: int and q :: "int list"
    and s x2c :: PolySymmetryData and x2a x2b :: int
  assume sib: "getUnexaminedVertexSibling m vertex0 (fst facePair) s = Some x2a"
    and ne: "\<not> (x2a = - 1 \<or> x2b = - 1)"
    and mk: "markSymmetricalVertices x2a x2b s = Some x2c"
  from sib ne have un: "vec_at (examinedVertices s) x2a = Some False"
    by (auto simp: getUnexaminedVertexSibling_def split: option.splits dest: firstUnexamined_found)
  from mk obtain t where t: "markPair x2a x2b (vertexSymmetryIndices s, examinedVertices s) = Some t"
    and x: "x2c = s\<lparr>vertexSymmetryIndices := fst t, examinedVertices := snd t\<rparr>"
    by (auto simp: markSymmetricalVertices_def split: option.splits)
  from markPair_unexamined_less [OF t] un x
  have "unexamined (examinedVertices x2c) < unexamined (examinedVertices s)" by simp
  then show "((m, facePair, q @ [x2a], x2c), m, facePair, vertex0 # q, s)
          \<in> measure (\<lambda>(m, facePair, q, s). 2 * unexamined (examinedVertices s) + length q)"
    by simp
qed

definition findSymmetricalVerticesOnFace ::
  "MeshData \<Rightarrow> int \<times> int \<Rightarrow> PolySymmetryData \<Rightarrow> PolySymmetryData option" where
  "findSymmetricalVerticesOnFace m facePair s =
     do { fd \<leftarrow> vec_at (faceData m) (fst facePair);
          q \<leftarrow> examinedOnFace (examinedVertices s) (fConnectedVertices fd);
          walkFaceVertices m facePair q s }"

subsection \<open>Face edge completion\<close>

text \<open>
  One pass of the for loop of \<^verbatim>\<open>findSymmetricalEdgesOnFace\<close>, for the edge \<open>e\<close>:
  \<open>partnerVertices\<close> are the two reads \<open>vertex0\<close> and \<open>vertex1\<close>, \<open>sharedEdgesOf\<close> is
  the call of \<^verbatim>\<open>intersection\<close> on their connected edges.
\<close>

definition partnerVertices :: "MeshData \<Rightarrow> int \<Rightarrow> PolySymmetryData \<Rightarrow> (int \<times> int) option" where
  "partnerVertices m e s =
     do { ed \<leftarrow> vec_at (edgeData m) e;
          c0 \<leftarrow> vec_at (eConnectedVertices ed) 0;
          vertex0 \<leftarrow> vec_at (vertexSymmetryIndices s) c0;
          c1 \<leftarrow> vec_at (eConnectedVertices ed) 1;
          vertex1 \<leftarrow> vec_at (vertexSymmetryIndices s) c1;
          Some (vertex0, vertex1) }"

definition sharedEdgesOf :: "MeshData \<Rightarrow> int \<Rightarrow> int \<Rightarrow> int list option" where
  "sharedEdgesOf m vertex0 vertex1 =
     do { vd0 \<leftarrow> vec_at (vertexData m) vertex0;
          vd1 \<leftarrow> vec_at (vertexData m) vertex1;
          Some (intersection (vConnectedEdges vd0) (vConnectedEdges vd1)) }"

definition completeEdge ::
  "MeshData \<Rightarrow> int \<Rightarrow> (int \<times> int) list \<times> PolySymmetryData
     \<Rightarrow> ((int \<times> int) list \<times> PolySymmetryData) option" where
  "completeEdge m e qs =
     (case qs of (q, s) \<Rightarrow>
       do { done \<leftarrow> vec_at (examinedEdges s) e;
            if done then Some (q, s)
            else do {
              (vertex0, vertex1) \<leftarrow> partnerVertices m e s;
              if vertex0 = - 1 \<or> vertex1 = - 1 then Some (q, s)
              else do {
                sharedEdges \<leftarrow> sharedEdgesOf m vertex0 vertex1;
                if length sharedEdges \<noteq> 1 then Some (q, s)
                else do {
                  edgeIndex \<leftarrow> vec_at sharedEdges 0;
                  found \<leftarrow> vec_at (examinedEdges s) edgeIndex;
                  s' \<leftarrow> markSymmetricalEdges e edgeIndex s;
                  Some (if \<not> found then q @ [(e, edgeIndex)] else q, s') } } } })"

fun completeEdges ::
  "MeshData \<Rightarrow> int list \<Rightarrow> (int \<times> int) list \<times> PolySymmetryData
     \<Rightarrow> ((int \<times> int) list \<times> PolySymmetryData) option" where
  "completeEdges m [] qs = Some qs"
| "completeEdges m (e # rest) qs =
     (case completeEdge m e qs of None \<Rightarrow> None | Some qs' \<Rightarrow> completeEdges m rest qs')"

definition findSymmetricalEdgesOnFace ::
  "MeshData \<Rightarrow> int \<Rightarrow> (int \<times> int) list \<times> PolySymmetryData
     \<Rightarrow> ((int \<times> int) list \<times> PolySymmetryData) option" where
  "findSymmetricalEdgesOnFace m faceIndex qs =
     (case vec_at (faceData m) faceIndex of
        None \<Rightarrow> None
      | Some fd \<Rightarrow> completeEdges m (fConnectedEdges fd) qs)"

subsection \<open>Seed resolution and the worklist\<close>

definition findFirstSymmetricalVertices ::
  "MeshData \<Rightarrow> ComponentSelection \<Rightarrow> PolySymmetryData \<Rightarrow> PolySymmetryData option" where
  "findFirstSymmetricalVertices m selection s =
     do { s1 \<leftarrow> markSymmetricalVertices (fst (vertexIndices selection)) (snd (vertexIndices selection)) s;
          s2 \<leftarrow> markSymmetricalFaces (fst (faceIndices selection)) (snd (faceIndices selection)) s1;
          ed0 \<leftarrow> vec_at (edgeData m) (fst (edgeIndices selection));
          a0 \<leftarrow> vec_at (eConnectedVertices ed0) 0;
          a1 \<leftarrow> vec_at (eConnectedVertices ed0) 1;
          exa \<leftarrow> vec_at (examinedVertices s2) a0;
          let nextVertex0 = (if exa then a1 else a0) in
          do { ed1 \<leftarrow> vec_at (edgeData m) (snd (edgeIndices selection));
               b0 \<leftarrow> vec_at (eConnectedVertices ed1) 0;
               b1 \<leftarrow> vec_at (eConnectedVertices ed1) 1;
               exb \<leftarrow> vec_at (examinedVertices s2) b0;
               let nextVertex1 = (if exb then b1 else b0) in
               do { s3 \<leftarrow> markSymmetricalVertices nextVertex0 nextVertex1 s2;
                    findSymmetricalVerticesOnFace m (faceIndices selection) s3 } } }"

text \<open>One pass of the while loop of \<^verbatim>\<open>findSymmetricalVertices\<close>, after the pop.\<close>

definition examineEdgePair ::
  "MeshData \<Rightarrow> int \<times> int \<Rightarrow> (int \<times> int) list \<times> PolySymmetryData
     \<Rightarrow> ((int \<times> int) list \<times> PolySymmetryData) option" where
  "examineEdgePair m edgePair qs =
     (case qs of (q, s) \<Rightarrow>
       do { s1 \<leftarrow> markSymmetricalEdges (fst edgePair) (snd edgePair) s;
            facesPair \<leftarrow> getUnexaminedFaces m edgePair s1;
            if fst facesPair = - 1 \<or> snd facesPair = - 1 then Some (q, s1)
            else do {
              s2 \<leftarrow> markSymmetricalFaces (fst facesPair) (snd facesPair) s1;
              s3 \<leftarrow> findSymmetricalVerticesOnFace m facesPair s2;
              findSymmetricalEdgesOnFace m (fst facesPair) (q, s3) } })"

text \<open>
  The while loop over \<^verbatim>\<open>symmetricalEdgesQueue\<close>.  The source gives no bound on the
  number of passes, so the model counts them down from \<open>fuel\<close>: \<open>TimedOut\<close> says that
  the queue was not empty after \<open>fuel\<close> pops, \<open>Returned None\<close> that a vector was
  indexed out of range, \<open>Returned (Some s)\<close> that the loop ended in state \<open>s\<close>.
\<close>

datatype 'a run = TimedOut | Returned 'a

fun drainEdgeQueue ::
  "nat \<Rightarrow> MeshData \<Rightarrow> (int \<times> int) list \<Rightarrow> PolySymmetryData \<Rightarrow> PolySymmetryData option run" where
  "drainEdgeQueue fuel m [] s = Returned (Some s)"
| "drainEdgeQueue 0 m (edgePair # q) s = TimedOut"
| "drainEdgeQueue (Suc fuel) m (edgePair # q) s =
     (case examineEdgePair m edgePair (q, s) of
        None \<Rightarrow> Returned None
      | Some (q', s') \<Rightarrow> drainEdgeQueue fuel m q' s')"

definition findSymmetricalVertices ::
  "nat \<Rightarrow> MeshData \<Rightarrow> ComponentSelection \<Rightarrow> PolySymmetryData \<Rightarrow> PolySymmetryData option run" where
  "findSymmetricalVertices fuel m selection s =
     (let s0 = (if leftVertexIndex selection \<noteq> - 1
                then s\<lparr>leftSideVertexIndices := leftSideVertexIndices s @ [leftVertexIndex selection]\<rparr>
                else s)
      in case findFirstSymmetricalVertices m selection s0 of
           None \<Rightarrow> Returned None
         | Some s1 \<Rightarrow> drainEdgeQueue fuel m [edgeIndices selection] s1)"


section \<open>The side classifier\<close>

text \<open>The two for loops of \<^verbatim>\<open>findVertexSides\<close> over the left vertices, on the queue and \<open>vertexSides\<close>.\<close>

fun seedLeft :: "int list \<Rightarrow> int list \<times> int list \<Rightarrow> (int list \<times> int list) option" where
  "seedLeft [] qs = Some qs"
| "seedLeft (i # rest) (q, sides) =
     (case vec_set sides i LEFT of
        None \<Rightarrow> None
      | Some sides' \<Rightarrow> seedLeft rest (q @ [i], sides'))"

fun seedRight :: "int list \<Rightarrow> int list \<Rightarrow> int list \<times> int list \<Rightarrow> (int list \<times> int list) option" where
  "seedRight symIdx [] qs = Some qs"
| "seedRight symIdx (i # rest) (q, sides) =
     (case vec_at symIdx i of
        None \<Rightarrow> None
      | Some partner \<Rightarrow>
          (case vec_set sides partner RIGHT of
             None \<Rightarrow> None
           | Some sides' \<Rightarrow> seedRight symIdx rest (q @ [partner], sides')))"

text \<open>
  The for loop over the connected vertices of \<open>vertexIndex\<close>: the vertices it pushes.
  With \<open>seam\<close> the test is that of the first while loop
  (\<^verbatim>\<open>!visitedVertices[i] && vertexSymmetryIndices[i] != vertexIndex\<close>), without it that
  of the second (\<^verbatim>\<open>!visitedVertices[i]\<close>).
\<close>

fun pushNeighbours :: "bool \<Rightarrow> int list \<Rightarrow> bool list \<Rightarrow> int \<Rightarrow> int list \<Rightarrow> int list option" where
  "pushNeighbours seam symIdx visited vertexIndex [] = Some []"
| "pushNeighbours seam symIdx visited vertexIndex (i # rest) =
     (case vec_at visited i of
        None \<Rightarrow> None
      | Some vis \<Rightarrow>
          if vis then pushNeighbours seam symIdx visited vertexIndex rest
          else if seam then
            (case vec_at symIdx i of
               None \<Rightarrow> None
             | Some partner \<Rightarrow>
                 (case pushNeighbours seam symIdx visited vertexIndex rest of
                    None \<Rightarrow> None
                  | Some ns \<Rightarrow> Some (if partner \<noteq> vertexIndex then i # ns else ns)))
          else (case pushNeighbours seam symIdx visited vertexIndex rest of
                  None \<Rightarrow> None
                | Some ns \<Rightarrow> Some (i # ns)))"

lemma measures_flood_visit:
  "unexamined v' < unexamined v \<Longrightarrow>
   ((a, b, c, d, q', v', s'), (a, b, c, d, q, v, s))
     \<in> measures [\<lambda>(m, symIdx, sd, seam, q, vs). unexamined (fst vs), \<lambda>(m, symIdx, sd, seam, q, vs). length q]"
  by simp

text \<open>
  The two while loops of \<^verbatim>\<open>findVertexSides\<close> over \<^verbatim>\<open>nextVertexQueue\<close>, on
  \<open>(visitedVertices, vertexSides)\<close>: the first is \<open>floodSide m symIdx LEFT True\<close>, the
  second \<open>floodSide m symIdx RIGHT False\<close>.  (\<^verbatim>\<open>visitedVertices\<close> is a \<^verbatim>\<open>vector<int>\<close>
  that only ever holds \<^verbatim>\<open>false\<close> and \<^verbatim>\<open>true\<close>; the model keeps booleans.)
\<close>

function floodSide ::
  "MeshData \<Rightarrow> int list \<Rightarrow> int \<Rightarrow> bool \<Rightarrow> int list \<Rightarrow> bool list \<times> int list
     \<Rightarrow> (bool list \<times> int list) option" where
  "floodSide m symIdx sd seam [] vs = Some vs"
| "floodSide m symIdx sd seam (vertexIndex # q) (visited, sides) =
     (case vec_at visited vertexIndex of
        None \<Rightarrow> None
      | Some vis \<Rightarrow>
          if vis then floodSide m symIdx sd seam q (visited, sides)
          else
           (case vec_set visited vertexIndex True of
              None \<Rightarrow> None
            | Some visited' \<Rightarrow>
               (case vec_at symIdx vertexIndex of
                  None \<Rightarrow> None
                | Some partner \<Rightarrow>
                    if partner = vertexIndex then
                      (case vec_set sides vertexIndex CENTER of
                         None \<Rightarrow> None
                       | Some sides' \<Rightarrow> floodSide m symIdx sd seam q (visited', sides'))
                    else
                      (case vec_set sides vertexIndex sd of
                         None \<Rightarrow> None
                       | Some sides' \<Rightarrow>
                          (case vec_at (vertexData m) vertexIndex of
                             None \<Rightarrow> None
                           | Some vd \<Rightarrow>
                              (case pushNeighbours seam symIdx visited' vertexIndex (vConnectedVertices vd) of
                                 None \<Rightarrow> None
                               | Some ns \<Rightarrow> floodSide m symIdx sd seam (q @ ns) (visited', sides')))))))"
  by pat_completeness auto
termination
proof (relation "measures [\<lambda>(m, symIdx, sd, seam, q, vs). unexamined (fst vs),
                           \<lambda>(m, symIdx, sd, seam, q, vs). length q]")
qed (auto simp: vec_set_True_less)

definition findVertexSides :: "MeshData \<Rightarrow> int list \<Rightarrow> PolySymmetryData \<Rightarrow> PolySymmetryData option" where
  "findVertexSides m left s =
     do { (q1, sides1) \<leftarrow> seedLeft left ([], replicate (numberOfVertices m) 0);
          (visited2, sides2) \<leftarrow>
             floodSide m (vertexSymmetryIndices s) LEFT True q1
               (replicate (numberOfVertices m) False, sides1);
          (q3, sides3) \<leftarrow> seedRight (vertexSymmetryIndices s) left ([], sides2);
          (visited4, sides4) \<leftarrow>
             floodSide m (vertexSymmetryIndices s) RIGHT False q3 (visited2, sides3);
          Some (s\<lparr>vertexSides := sides4\<rparr>) }"

section \<open>Edge and face sides\<close>

fun forEach :: "(int \<Rightarrow> 's \<Rightarrow> 's option) \<Rightarrow> int list \<Rightarrow> 's \<Rightarrow> 's option" where
  "forEach f [] s = Some s"
| "forEach f (i # rest) s = (case f i s of None \<Rightarrow> None | Some s' \<Rightarrow> forEach f rest s')"

text \<open>
  The body of the first for loop of \<^verbatim>\<open>finalizeSymmetry\<close>, for the edge \<open>i\<close>: the
  if-else chain (\<open>None\<close> when no branch is taken and \<open>edgeSides[i]\<close> is left as it
  was), the two reads of \<open>vertexSides\<close>, and the assignment.
\<close>

definition edgeSideOf :: "int \<Rightarrow> int \<Rightarrow> int option" where
  "edgeSideOf sv0 sv1 =
     (if sv0 = CENTER \<and> sv1 = CENTER then Some CENTER
      else if sv0 = RIGHT \<or> sv1 = RIGHT then Some RIGHT
      else if sv0 = LEFT \<or> sv1 = LEFT then Some LEFT
      else None)"

definition endpointSides :: "MeshData \<Rightarrow> int \<Rightarrow> int list \<Rightarrow> (int \<times> int) option" where
  "endpointSides m i sides =
     do { ed \<leftarrow> vec_at (edgeData m) i;
          c0 \<leftarrow> vec_at (eConnectedVertices ed) 0;
          sv0 \<leftarrow> vec_at sides c0;
          c1 \<leftarrow> vec_at (eConnectedVertices ed) 1;
          sv1 \<leftarrow> vec_at sides c1;
          Some (sv0, sv1) }"

definition finalizeEdge :: "MeshData \<Rightarrow> int \<Rightarrow> PolySymmetryData \<Rightarrow> PolySymmetryData option" where
  "finalizeEdge m i s =
     (case endpointSides m i (vertexSides s) of
        None \<Rightarrow> None
      | Some (sv0, sv1) \<Rightarrow>
          (case edgeSideOf sv0 sv1 of
             None \<Rightarrow> Some s
           | Some side \<Rightarrow>
               (case vec_set (edgeSides s) i side of
                  None \<Rightarrow> None
                | Some es \<Rightarrow> Some (s\<lparr>edgeSides := es\<rparr>))))"

text \<open>The inner loop of the second for loop: the sides of the vertices of a face.\<close>

fun sidesOf :: "int list \<Rightarrow> int list \<Rightarrow> int list option" where
  "sidesOf sides [] = Some []"
| "sidesOf sides (v # rest) =
     (case vec_at sides v of
        None \<Rightarrow> None
      | Some sv \<Rightarrow> (case sidesOf sides rest of None \<Rightarrow> None | Some svs \<Rightarrow> Some (sv # svs)))"

definition finalizeFace :: "MeshData \<Rightarrow> int \<Rightarrow> PolySymmetryData \<Rightarrow> PolySymmetryData option" where
  "finalizeFace m i s =
     do { fd \<leftarrow> vec_at (faceData m) i;
          faceVertexSides \<leftarrow> sidesOf (vertexSides s) (fConnectedVertices fd);
          let onTheLeft = contains faceVertexSides LEFT;
              onTheRight = contains faceVertexSides RIGHT in
          do { fs \<leftarrow> vec_set (faceSides s) i
                       ((if onTheLeft then LEFT else CENTER) + (if onTheRight then RIGHT else CENTER));
               Some (s\<lparr>faceSides := fs\<rparr>) } }"

definition finalizeSymmetry :: "MeshData \<Rightarrow> PolySymmetryData \<Rightarrow> PolySymmetryData option" where
  "finalizeSymmetry m s =
     do { s1 \<leftarrow> forEach (finalizeEdge m) (map int [0..<numberOfEdges m]) s;
          forEach (finalizeFace m) (map int [0..<numberOfFaces m]) s1 }"


section \<open>Example meshes\<close>

text \<open>
  A single quad that straddles the mirror plane: vertices 0 and 3 on the left, 1 and 2
  on the right; edge 0 joins 0 and 1, edge 1 joins 1 and 2, edge 2 joins 2 and 3,
  edge 3 joins 3 and 0.  The mesh has no centre edge loop.
\<close>

definition quadMesh :: MeshData where
  "quadMesh = \<lparr> numberOfVertices = 4, numberOfEdges = 4, numberOfFaces = 1,
     vertexData = [
       \<lparr> vConnectedVertices = [1, 3], vConnectedEdges = [0, 3], faceVertexSiblings = [(0, [1, 3])] \<rparr>,
       \<lparr> vConnectedVertices = [0, 2], vConnectedEdges = [0, 1], faceVertexSiblings = [(0, [0, 2])] \<rparr>,
       \<lparr> vConnectedVertices = [1, 3], vConnectedEdges = [1, 2], faceVertexSiblings = [(0, [1, 3])] \<rparr>,
       \<lparr> vConnectedVertices = [2, 0], vConnectedEdges = [2, 3], faceVertexSiblings = [(0, [2, 0])] \<rparr> ],
     edgeData = [
       \<lparr> eConnectedVertices = [0, 1], eConnectedFaces = [0] \<rparr>,
       \<lparr> eConnectedVertices = [1, 2], eConnectedFaces = [0] \<rparr>,
       \<lparr> eConnectedVertices = [2, 3], eConnectedFaces = [0] \<rparr>,
       \<lparr> eConnectedVertices = [3, 0], eConnectedFaces = [0] \<rparr> ],
     faceData = [ \<lparr> fConnectedVertices = [0, 1, 2, 3], fConnectedEdges = [0, 1, 2, 3] \<rparr> ] \<rparr>"

text \<open>
  Two quads that share the centre edge 5 (vertices 1 and 4): vertices 0 1 2 in the top
  row, 3 4 5 in the bottom row; face 0 is the left quad, face 1 the right one.
\<close>

definition twoQuads :: MeshData where
  "twoQuads = \<lparr> numberOfVertices = 6, numberOfEdges = 7, numberOfFaces = 2,
     vertexData = [
       \<lparr> vConnectedVertices = [1, 3], vConnectedEdges = [0, 4], faceVertexSiblings = [(0, [1, 3])] \<rparr>,
       \<lparr> vConnectedVertices = [0, 2, 4], vConnectedEdges = [0, 1, 5],
          faceVertexSiblings = [(0, [0, 4]), (1, [2, 4])] \<rparr>,
       \<lparr> vConnectedVertices = [1, 5], vConnectedEdges = [1, 6], faceVertexSiblings = [(1, [1, 5])] \<rparr>,
       \<lparr> vConnectedVertices = [0, 4], vConnectedEdges = [4, 2], faceVertexSiblings = [(0, [0, 4])] \<rparr>,
       \<lparr> vConnectedVertices = [3, 5, 1], vConnectedEdges = [2, 3, 5],
          faceVertexSiblings = [(0, [3, 1]), (1, [5, 1])] \<rparr>,
       \<lparr> vConnectedVertices = [4, 2], vConnectedEdges = [3, 6], faceVertexSiblings = [(1, [4, 2])] \<rparr> ],
     edgeData = [
       \<lparr> eConnectedVertices = [0, 1], eConnectedFaces = [0] \<rparr>,
       \<lparr> eConnectedVertices = [1, 2], eConnectedFaces = [1] \<rparr>,
       \<lparr> eConnectedVertices = [3, 4], eConnectedFaces = [0] \<rparr>,
       \<lparr> eConnectedVertices = [4, 5], eConnectedFaces = [1] \<rparr>,
       \<lparr> eConnectedVertices = [0, 3], eConnectedFaces = [0] \<rparr>,
       \<lparr> eConnectedVertices = [1, 4], eConnectedFaces = [0, 1] \<rparr>,
       \<lparr> eConnectedVertices = [2, 5], eConnectedFaces = [1] \<rparr> ],
     faceData = [ \<lparr> fConnectedVertices = [0, 1, 4, 3], fConnectedEdges = [0, 5, 2, 4] \<rparr>,
                  \<lparr> fConnectedVertices = [1, 2, 5, 4], fConnectedEdges = [1, 6, 3, 5] \<rparr> ] \<rparr>"

text \<open>
  A seed on the single quad: edge 0, which joins the two seed vertices 0 and 1 and is
  its own mirror image, and face 0; with the table that the propagation engine
  returns for it.
\<close>

definition quadSeed :: ComponentSelection where
  "quadSeed = \<lparr> edgeIndices = (0, 0), faceIndices = (0, 0), vertexIndices = (0, 1), leftVertexIndex = 0 \<rparr>"

definition quadResolved :: PolySymmetryData where
  "quadResolved = (reset quadMesh)
     \<lparr> examinedEdges := [True, False, False, False], examinedFaces := [True],
       examinedVertices := [True, True, True, True],
       vertexSymmetryIndices := [1, 1, 3, 2],
       edgeSymmetryIndices := [0, - 1, - 1, - 1], faceSymmetryIndices := [0],
       leftSideVertexIndices := [0] \<rparr>"

text \<open>
  A seed on the two quads: the top edges 0 and 1, the two faces, the outer top
  vertices 0 and 2, and the centre vertex 1 given as the left vertex; with the table
  after seed resolution and the table that the propagation engine returns.
\<close>

definition twoSeed :: ComponentSelection where
  "twoSeed = \<lparr> edgeIndices = (0, 1), faceIndices = (0, 1), vertexIndices = (0, 2), leftVertexIndex = 1 \<rparr>"

definition twoSeeded :: PolySymmetryData where
  "twoSeeded = (reset twoQuads)
     \<lparr> examinedFaces := [True, True],
       examinedVertices := [True, True, True, True, True, True],
       vertexSymmetryIndices := [2, 1, 0, 5, 4, 3],
       faceSymmetryIndices := [1, 0] \<rparr>"

definition twoResolved :: PolySymmetryData where
  "twoResolved = twoSeeded
     \<lparr> examinedEdges := [True, True, False, False, False, False, False],
       edgeSymmetryIndices := [1, 0, - 1, - 1, - 1, - 1, - 1],
       leftSideVertexIndices := [1] \<rparr>"

text \<open>Vertex sides on the single quad (0 and 3 left, 1 and 2 right), before and after \<^verbatim>\<open>finalizeSymmetry\<close>.\<close>

definition quadSided :: PolySymmetryData where
  "quadSided = (reset quadMesh)\<lparr>vertexSides := [1, - 1, - 1, 1]\<rparr>"

definition quadFinal :: PolySymmetryData where
  "quadFinal = quadSided\<lparr>edgeSides := [- 1, - 1, - 1, 1], faceSides := [0]\<rparr>"

text \<open>
  A strip of four quads (faces 0 to 3, vertices 0 to 4 in the top row and 5 to 9 in the
  bottom row, centre edge 10 between vertices 2 and 7) and, as a second shell, a
  single quad (face 4, vertices 10 to 13, edges 13 to 16).
\<close>

definition stripAndQuad :: MeshData where
  "stripAndQuad = \<lparr> numberOfVertices = 14, numberOfEdges = 17, numberOfFaces = 5,
     vertexData = [
       \<lparr> vConnectedVertices = [1, 5], vConnectedEdges = [0, 8],
          faceVertexSiblings = [(0, [1, 5])] \<rparr>,
       \<lparr> vConnectedVertices = [0, 2, 6], vConnectedEdges = [0, 1, 9],
          faceVertexSiblings = [(0, [0, 6]), (1, [2, 6])] \<rparr>,
       \<lparr> vConnectedVertices = [1, 3, 7], vConnectedEdges = [1, 2, 10],
          faceVertexSiblings = [(1, [1, 7]), (2, [3, 7])] \<rparr>,
       \<lparr> vConnectedVertices = [2, 4, 8], vConnectedEdges = [2, 3, 11],
          faceVertexSiblings = [(2, [2, 8]), (3, [4, 8])] \<rparr>,
       \<lparr> vConnectedVertices = [3, 9], vConnectedEdges = [3, 12],
          faceVertexSiblings = [(3, [3, 9])] \<rparr>,
       \<lparr> vConnectedVertices = [6, 0], vConnectedEdges = [4, 8],
          faceVertexSiblings = [(0, [6, 0])] \<rparr>,
       \<lparr> vConnectedVertices = [5, 7, 1], vConnectedEdges = [4, 5, 9],
          faceVertexSiblings = [(0, [5, 1]), (1, [7, 1])] \<rparr>,
       \<lparr> vConnectedVertices = [6, 8, 2], vConnectedEdges = [5, 6, 10],
          faceVertexSiblings = [(1, [6, 2]), (2, [8, 2])] \<rparr>,
       \<lparr> vConnectedVertices = [7, 9, 3], vConnectedEdges = [6, 7, 11],
          faceVertexSiblings = [(2, [7, 3]), (3, [9, 3])] \<rparr>,
       \<lparr> vConnectedVertices = [8, 4], vConnectedEdges = [7, 12],
          faceVertexSiblings = [(3, [8, 4])] \<rparr>,
       \<lparr> vConnectedVertices = [11, 13], vConnectedEdges = [13, 16],
          faceVertexSiblings = [(4, [11, 13])] \<rparr>,
       \<lparr> vConnectedVertices = [12, 10], vConnectedEdges = [14, 13],
          faceVertexSiblings = [(4, [12, 10])] \<rparr>,
       \<lparr> vConnectedVertices = [13, 11], vConnectedEdges = [15, 14],
          faceVertexSiblings = [(4, [13, 11])] \<rparr>,
       \<lparr> vConnectedVertices = [10, 12], vConnectedEdges = [16, 15],
          faceVertexSiblings = [(4, [10, 12])] \<rparr> ],
     edgeData = [
       \<lparr> eConnectedVertices = [0, 1], eConnectedFaces = [0] \<rparr>,
       \<lparr> eConnectedVertices = [1, 2], eConnectedFaces = [1] \<rparr>,
       \<lparr> eConnectedVertices = [2, 3], eConnectedFaces = [2] \<rparr>,
       \<lparr> eConnectedVertices = [3, 4], eConnectedFaces = [3] \<rparr>,
       \<lparr> eConnectedVertices = [5, 6], eConnectedFaces = [0] \<rparr>,
       \<lparr> eConnectedVertices = [6, 7], eConnectedFaces = [1] \<rparr>,
       \<lparr> eConnectedVertices = [7, 8], eConnectedFaces = [2] \<rparr>,
       \<lparr> eConnectedVertices = [8, 9], eConnectedFaces = [3] \<rparr>,
       \<lparr> eConnectedVertices = [0, 5], eConnectedFaces = [0] \<rparr>,
       \<lparr> eConnectedVertices = [1, 6], eConnectedFaces = [0, 1] \<rparr>,
       \<lparr> eConnectedVertices = [2, 7], eConnectedFaces = [1, 2] \<rparr>,
       \<lparr> eConnectedVertices = [3, 8], eConnectedFaces = [2, 3] \<rparr>,
       \<lparr> eConnectedVertices = [4, 9], eConnectedFaces = [3] \<rparr>,
       \<lparr> eConnectedVertices = [10, 11], eConnectedFaces = [4] \<rparr>,
       \<lparr> eConnectedVertices = [11, 12], eConnectedFaces = [4] \<rparr>,
       \<lparr> eConnectedVertices = [12, 13], eConnectedFaces = [4] \<rparr>,
       \<lparr> eConnectedVertices = [13, 10], eConnectedFaces = [4] \<rparr> ],
     faceData = [
       \<lparr> fConnectedVertices = [0, 1, 6, 5], fConnectedEdges = [0, 9, 4, 8] \<rparr>,
       \<lparr> fConnectedVertices = [1, 2, 7, 6], fConnectedEdges = [1, 10, 5, 9] \<rparr>,
       \<lparr> fConnectedVertices = [2, 3, 8, 7], fConnectedEdges = [2, 11, 6, 10] \<rparr>,
       \<lparr> fConnectedVertices = [3, 4, 9, 8], fConnectedEdges = [3, 12, 7, 11] \<rparr>,
       \<lparr> fConnectedVertices = [10, 11, 12, 13], fConnectedEdges = [13, 14, 15, 16] \<rparr> ] \<rparr>"

text \<open>
  A seed on the strip: the edges 9 and 11 left and right of the centre, the two inner
  faces, the top vertices 1 and 3; with the table after the first pass of the worklist
  has walked the vertices of the outer faces, and the table that the engine returns.
\<close>

definition stripSeed :: ComponentSelection where
  "stripSeed = \<lparr> edgeIndices = (9, 11), faceIndices = (1, 2), vertexIndices = (1, 3), leftVertexIndex = 0 \<rparr>"

text \<open>The table on the strip after seed resolution: no edge is marked yet.\<close>

definition stripSeeded :: PolySymmetryData where
  "stripSeeded = (reset stripAndQuad)
     \<lparr> examinedFaces := [False, True, True, False, False],
       examinedVertices := [False, True, True, True, False, False, True, True, True, False,
                            False, False, False, False],
       vertexSymmetryIndices := [- 1, 3, 2, 1, - 1, - 1, 8, 7, 6, - 1, - 1, - 1, - 1, - 1],
       faceSymmetryIndices := [- 1, 2, 1, - 1, - 1],
       leftSideVertexIndices := [0] \<rparr>"

definition stripWalked :: PolySymmetryData where
  "stripWalked = (reset stripAndQuad)
     \<lparr> examinedEdges := [False, False, False, False, False, False, False, False, False, True,
                         False, True, False, False, False, False, False],
       examinedFaces := [True, True, True, True, False],
       examinedVertices := [True, True, True, True, True, True, True, True, True, True,
                            False, False, False, False],
       vertexSymmetryIndices := [4, 3, 2, 1, 0, 9, 8, 7, 6, 5, - 1, - 1, - 1, - 1],
       edgeSymmetryIndices := [- 1, - 1, - 1, - 1, - 1, - 1, - 1, - 1, - 1, 11, - 1, 9, - 1,
                               - 1, - 1, - 1, - 1],
       faceSymmetryIndices := [3, 2, 1, 0, - 1],
       leftSideVertexIndices := [0] \<rparr>"

definition stripResolved :: PolySymmetryData where
  "stripResolved = stripWalked
     \<lparr> examinedEdges := [True, False, False, True, True, False, False, True, True, True,
                         False, True, True, False, False, False, False],
       edgeSymmetryIndices := [3, - 1, - 1, 0, 7, - 1, - 1, 4, 12, 11, - 1, 9, 8,
                               - 1, - 1, - 1, - 1] \<rparr>"

text \<open>The strip after \<^verbatim>\<open>findVertexSides\<close> with vertex 0 as the left seed.\<close>

definition stripSided :: PolySymmetryData where
  "stripSided = stripResolved\<lparr>vertexSides := [1, 1, 0, - 1, - 1, 1, 1, 0, - 1, - 1, 0, 0, 0, 0]\<rparr>"

text \<open>The strip after \<^verbatim>\<open>finalizeSymmetry\<close>.\<close>

definition stripFinal :: PolySymmetryData where
  "stripFinal = stripSided
     \<lparr> edgeSides := [1, 1, - 1, - 1, 1, 1, - 1, - 1, 1, 1, 0, - 1, - 1, 0, 0, 0, 0],
       faceSides := [1, 1, - 1, - 1, 0] \<rparr>"

text \<open>The strip with a second edge 17 between the vertices 0 and 1, on face 0.\<close>

definition stripDoubleEdge :: MeshData where
  "stripDoubleEdge = stripAndQuad
     \<lparr> numberOfEdges := 18,
       edgeData := edgeData stripAndQuad @ [\<lparr> eConnectedVertices = [0, 1], eConnectedFaces = [0] \<rparr>],
       faceData := (faceData stripAndQuad)
          [0 := \<lparr> fConnectedVertices = [0, 1, 6, 5], fConnectedEdges = [0, 17, 9, 4, 8] \<rparr>] \<rparr>"

section \<open>Predicates of the claims\<close>

text \<open>
  What \<^verbatim>\<open>findVertexSides\<close> needs of the topology: one \<^verbatim>\<open>VertexData\<close> for each vertex, and
  connected vertices that are vertex indices.
\<close>

definition meshVerticesOK :: "MeshData \<Rightarrow> bool" where
  "meshVerticesOK m =
     (length (vertexData m) = numberOfVertices m \<and>
      (\<forall>vd \<in> set (vertexData m). \<forall>i \<in> set (vConnectedVertices vd).
          0 \<le> i \<and> i < int (numberOfVertices m)))"

text \<open>The vertices that the second for loop of \<^verbatim>\<open>findVertexSides\<close> marks RIGHT and pushes.\<close>

definition partnersOf :: "int list \<Rightarrow> int list \<Rightarrow> int list" where
  "partnersOf symIdx left = map (\<lambda>i. case vec_at symIdx i of None \<Rightarrow> - 1 | Some p \<Rightarrow> p) left"

text \<open>The side that a flood fill assigning \<open>sd\<close> gives a vertex when it visits it.\<close>

definition floodedSide :: "int list \<Rightarrow> int \<Rightarrow> int \<Rightarrow> int" where
  "floodedSide symIdx sd v = (if vec_at symIdx v = Some v then CENTER else sd)"

text \<open>
  The vertices that a flood fill reaches from the queue \<open>starts\<close> when the vertices
  \<open>blocked\<close> are already visited: every queued vertex that is not blocked, and from a
  reached vertex that is not its own partner every connected vertex that is not
  blocked and, in a fill that respects the seam, does not have the reached vertex as
  its partner.  This is the property that the queue and the visited flags of
  \<^verbatim>\<open>findVertexSides\<close> implement.
\<close>

inductive_set floodReach :: "MeshData \<Rightarrow> int list \<Rightarrow> bool \<Rightarrow> int set \<Rightarrow> int list \<Rightarrow> int set"
  for m :: MeshData and symIdx :: "int list" and seam :: bool and blocked :: "int set"
    and starts :: "int list" where
  start: "v \<in> set starts \<Longrightarrow> v \<notin> blocked \<Longrightarrow> v \<in> floodReach m symIdx seam blocked starts"
| step: "v \<in> floodReach m symIdx seam blocked starts \<Longrightarrow> vec_at symIdx v \<noteq> Some v \<Longrightarrow>
         vec_at (vertexData m) v = Some vd \<Longrightarrow> w \<in> set (vConnectedVertices vd) \<Longrightarrow>
         w \<notin> blocked \<Longrightarrow> (seam \<longrightarrow> vec_at symIdx w \<noteq> Some v) \<Longrightarrow>
         w \<in> floodReach m symIdx seam blocked starts"

text \<open>
  The vertices that the first while loop of \<^verbatim>\<open>findVertexSides\<close> visits, and those that
  the second one visits.
\<close>

definition leftFlood :: "MeshData \<Rightarrow> int list \<Rightarrow> int list \<Rightarrow> int set" where
  "leftFlood m symIdx left = floodReach m symIdx True {} left"

definition rightFlood :: "MeshData \<Rightarrow> int list \<Rightarrow> int list \<Rightarrow> int set" where
  "rightFlood m symIdx left =
     floodReach m symIdx False (leftFlood m symIdx left) (partnersOf symIdx left)"

text \<open>
  A partner table with its examined flags is a partial involution when the two vectors
  have the same length, every examined component has an examined partner whose partner
  it is, and every unexamined component has the partner \<open>-1\<close>.
\<close>

definition partialInvolution :: "int list \<times> bool list \<Rightarrow> bool" where
  "partialInvolution t =
     (length (fst t) = length (snd t) \<and>
      (\<forall>c \<in> set (map int [0..<length (snd t)]).
         (vec_at (snd t) c = Some True \<longrightarrow>
            (case vec_at (fst t) c of
               None \<Rightarrow> False
             | Some p \<Rightarrow> vec_at (fst t) p = Some c \<and> vec_at (snd t) p = Some True)) \<and>
         (vec_at (snd t) c = Some False \<longrightarrow> vec_at (fst t) c = Some (- 1))))"

text \<open>The partner table and the examined flags of each kind of component.\<close>

definition vertexTable :: "PolySymmetryData \<Rightarrow> int list \<times> bool list" where
  "vertexTable s = (vertexSymmetryIndices s, examinedVertices s)"

definition edgeTable :: "PolySymmetryData \<Rightarrow> int list \<times> bool list" where
  "edgeTable s = (edgeSymmetryIndices s, examinedEdges s)"

definition faceTable :: "PolySymmetryData \<Rightarrow> int list \<times> bool list" where
  "faceTable s = (faceSymmetryIndices s, examinedFaces s)"

text \<open>The edge \<open>e\<close> has both of its end points among the two seed vertices.\<close>

definition joinsSeedVertices :: "MeshData \<Rightarrow> ComponentSelection \<Rightarrow> int \<Rightarrow> bool" where
  "joinsSeedVertices m selection e =
     (case vec_at (edgeData m) e of
        None \<Rightarrow> False
      | Some ed \<Rightarrow>
          set (take 2 (eConnectedVertices ed))
            \<subseteq> {fst (vertexIndices selection), snd (vertexIndices selection)})"

text \<open>
  A shell, given by its vertices, edges and faces: every adjacency list of one of its
  components names components of the shell only.
\<close>

definition shellClosed :: "MeshData \<Rightarrow> int set \<Rightarrow> int set \<Rightarrow> int set \<Rightarrow> bool" where
  "shellClosed m V E F =
     ((\<forall>v \<in> V. case vec_at (vertexData m) v of
                  None \<Rightarrow> True
                | Some vd \<Rightarrow> set (vConnectedVertices vd) \<subseteq> V \<and> set (vConnectedEdges vd) \<subseteq> E \<and>
                            (\<forall>fs \<in> set (faceVertexSiblings vd). set (snd fs) \<subseteq> V)) \<and>
      (\<forall>e \<in> E. case vec_at (edgeData m) e of
                  None \<Rightarrow> True
                | Some ed \<Rightarrow> set (eConnectedVertices ed) \<subseteq> V \<and> set (eConnectedFaces ed) \<subseteq> F) \<and>
      (\<forall>f \<in> F. case vec_at (faceData m) f of
                  None \<Rightarrow> True
                | Some fd \<Rightarrow> set (fConnectedVertices fd) \<subseteq> V \<and> set (fConnectedEdges fd) \<subseteq> E))"

text \<open>
  A table \<open>t\<close> differs from \<open>t0\<close> inside \<open>A\<close> only, and every partner it holds is in
  \<open>A\<close>; \<open>shellInv\<close> says so of the three tables of a state.
\<close>

definition confinedTo :: "int set \<Rightarrow> int list \<times> bool list \<Rightarrow> int list \<times> bool list \<Rightarrow> bool" where
  "confinedTo A t0 t =
     ((\<forall>c. c \<notin> A \<longrightarrow> vec_at (fst t) c = vec_at (fst t0) c \<and> vec_at (snd t) c = vec_at (snd t0) c) \<and>
      (\<forall>c p. vec_at (fst t) c = Some p \<longrightarrow> p \<noteq> - 1 \<longrightarrow> p \<in> A))"

definition shellInv ::
  "int set \<Rightarrow> int set \<Rightarrow> int set \<Rightarrow> PolySymmetryData \<Rightarrow> PolySymmetryData \<Rightarrow> bool" where
  "shellInv V E F s0 s =
     (confinedTo V (vertexTable s0) (vertexTable s) \<and>
      confinedTo E (edgeTable s0) (edgeTable s) \<and>
      confinedTo F (faceTable s0) (faceTable s))"

text \<open>The two end points of an edge, as the code reads them.\<close>

definition edgeEnds :: "MeshData \<Rightarrow> int \<Rightarrow> (int \<times> int) option" where
  "edgeEnds m e =
     do { ed \<leftarrow> vec_at (edgeData m) e;
          a \<leftarrow> vec_at (eConnectedVertices ed) 0;
          b \<leftarrow> vec_at (eConnectedVertices ed) 1;
          Some (a, b) }"

text \<open>
  The edge adjacency of a mesh is consistent and simple: an edge listed among the
  connected edges of a vertex has that vertex as an end point, the two end points of
  an edge differ, and two edges with the same end points (in either order) are the
  same edge.
\<close>

definition sameEnds :: "int \<times> int \<Rightarrow> int \<times> int \<Rightarrow> bool" where
  "sameEnds p q = (p = q \<or> p = (snd q, fst q))"

definition meshEdgesOK :: "MeshData \<Rightarrow> bool" where
  "meshEdgesOK m =
     ((\<forall>v \<in> set (map int [0..<length (vertexData m)]).
         case vec_at (vertexData m) v of
           None \<Rightarrow> True
         | Some vd \<Rightarrow>
             \<forall>g \<in> set (vConnectedEdges vd).
               (case edgeEnds m g of None \<Rightarrow> False | Some ab \<Rightarrow> v = fst ab \<or> v = snd ab)) \<and>
      (\<forall>e \<in> set (map int [0..<length (edgeData m)]).
         case edgeEnds m e of
           None \<Rightarrow> True
         | Some ab \<Rightarrow>
             fst ab \<noteq> snd ab \<and>
             (\<forall>g \<in> set (map int [0..<length (edgeData m)]).
                case edgeEnds m g of None \<Rightarrow> True | Some cd \<Rightarrow> sameEnds ab cd \<longrightarrow> e = g)))"

text \<open>Each seed vertex is an end point of its seed edge.\<close>

definition seedOnEdges :: "MeshData \<Rightarrow> ComponentSelection \<Rightarrow> bool" where
  "seedOnEdges m selection =
     (case edgeEnds m (fst (edgeIndices selection)) of
        None \<Rightarrow> False
      | Some ab \<Rightarrow>
         (case edgeEnds m (snd (edgeIndices selection)) of
            None \<Rightarrow> False
          | Some cd \<Rightarrow>
              (fst (vertexIndices selection) = fst ab \<or> fst (vertexIndices selection) = snd ab) \<and>
              (snd (vertexIndices selection) = fst cd \<or> snd (vertexIndices selection) = snd cd)))"


definition mutual :: "int list \<times> bool list \<Rightarrow> int \<times> int \<Rightarrow> bool" where
  "mutual t p =
     (vec_at (fst t) (fst p) = Some (snd p) \<and> vec_at (fst t) (snd p) = Some (fst p) \<and>
      vec_at (snd t) (fst p) = Some True \<and> vec_at (snd t) (snd p) = Some True)"



section \<open>Facts about vectors\<close>

lemma vec_set_length: "vec_set xs i v = Some ys \<Longrightarrow> length ys = length xs"
  by (auto simp: vec_set_def split: if_splits)

lemma vec_at_vec_set:
  "vec_set xs i v = Some ys \<Longrightarrow> vec_at ys j = (if j = i then Some v else vec_at xs j)"
  by (auto simp: vec_set_def vec_at_def nat_eq_iff split: if_splits)

lemma vec_set_in_range: "vec_set xs i v = Some ys \<Longrightarrow> 0 \<le> i \<and> i < int (length xs)"
  by (auto simp: vec_set_def split: if_splits)

lemma vec_at_in_range: "vec_at xs i = Some y \<Longrightarrow> 0 \<le> i \<and> i < int (length xs)"
  by (auto simp: vec_at_def split: if_splits)

lemma vec_at_Some_iff: "(\<exists>y. vec_at xs i = Some y) = (0 \<le> i \<and> i < int (length xs))"
  by (auto simp: vec_at_def)

lemma vec_set_Some_iff: "(\<exists>ys. vec_set xs i v = Some ys) = (0 \<le> i \<and> i < int (length xs))"
  by (auto simp: vec_set_def)

lemma vec_set_same: "vec_at xs i = Some v \<Longrightarrow> vec_set xs i v = Some xs"
  by (auto simp: vec_at_def vec_set_def split: if_splits)


section \<open>Facts about marking\<close>

lemma markSymmetricalEdges_effect:
  assumes "markSymmetricalEdges i0 i1 s = Some s'"
  shows "\<exists>t. markPair i0 i1 (edgeSymmetryIndices s, examinedEdges s) = Some t \<and>
           s' = s\<lparr>edgeSymmetryIndices := fst t, examinedEdges := snd t\<rparr>"
  using assms by (auto simp: markSymmetricalEdges_def split: option.splits)

lemma markPair_other:
  assumes "markPair i0 i1 t = Some t'" and "j \<noteq> i0" and "j \<noteq> i1"
  shows "vec_at (fst t') j = vec_at (fst t) j" and "vec_at (snd t') j = vec_at (snd t) j"
  using assms by (auto simp: markPair_def vec_at_vec_set split: bind_splits)

lemma markPair_at:
  assumes "markPair a b t = Some t'"
  shows "vec_at (fst t') c = (if c = b then Some a else if c = a then Some b else vec_at (fst t) c)"
    and "vec_at (snd t') c = (if c = a \<or> c = b then Some True else vec_at (snd t) c)"
    and "length (fst t') = length (fst t)" and "length (snd t') = length (snd t)"
  using assms
  by (auto simp: markPair_def vec_at_vec_set vec_set_length split: bind_splits)

lemma markPair_idem:
  assumes "vec_at (fst t) i0 = Some i1" and "vec_at (fst t) i1 = Some i0"
    and "vec_at (snd t) i0 = Some True" and "vec_at (snd t) i1 = Some True"
  shows "markPair i0 i1 t = Some t"
  using assms by (simp add: markPair_def vec_set_same)


section \<open>Runs on the example meshes\<close>

lemma quad_run: "findSymmetricalVertices 5 quadMesh quadSeed (reset quadMesh) = Returned (Some quadResolved)"
  by code_simp

lemma two_seeded: "findFirstSymmetricalVertices twoQuads twoSeed (reset twoQuads) = Some twoSeeded"
  by code_simp

lemma two_run: "findSymmetricalVertices 8 twoQuads twoSeed (reset twoQuads) = Returned (Some twoResolved)"
  by code_simp

lemma quad_finalized: "finalizeSymmetry quadMesh quadSided = Some quadFinal"
  by code_simp

section \<open>Edge and face sides are derived from the vertex sides\<close>

lemma finalizeEdge_effect:
  assumes "finalizeEdge m i s = Some s'"
  shows "vertexSides s' = vertexSides s" and "faceSides s' = faceSides s"
    and "length (edgeSides s') = length (edgeSides s)"
    and "j \<noteq> i \<Longrightarrow> vec_at (edgeSides s') j = vec_at (edgeSides s) j"
  using assms
  by (auto simp: finalizeEdge_def vec_set_length vec_at_vec_set split: option.splits prod.splits)

lemma finalizeEdge_at:
  assumes "finalizeEdge m i s = Some s'"
  shows "\<exists>sv0 sv1. endpointSides m i (vertexSides s) = Some (sv0, sv1) \<and>
           vec_at (edgeSides s') i =
             (case edgeSideOf sv0 sv1 of None \<Rightarrow> vec_at (edgeSides s) i | Some side \<Rightarrow> Some side)"
proof -
  from assms obtain sv0 sv1 where r: "endpointSides m i (vertexSides s) = Some (sv0, sv1)"
    by (auto simp: finalizeEdge_def split: option.splits)
  have "vec_at (edgeSides s') i =
          (case edgeSideOf sv0 sv1 of None \<Rightarrow> vec_at (edgeSides s) i | Some side \<Rightarrow> Some side)"
  proof (cases "edgeSideOf sv0 sv1")
    case None
    with assms r show ?thesis by (simp add: finalizeEdge_def)
  next
    case (Some side)
    with assms r show ?thesis
      by (auto simp: finalizeEdge_def vec_at_vec_set split: option.splits)
  qed
  with r show ?thesis by blast
qed

lemma forEach_finalizeEdge_frame:
  "forEach (finalizeEdge m) js s = Some s' \<Longrightarrow>
     vertexSides s' = vertexSides s \<and> faceSides s' = faceSides s \<and>
     length (edgeSides s') = length (edgeSides s) \<and>
     (i \<notin> set js \<longrightarrow> vec_at (edgeSides s') i = vec_at (edgeSides s) i)"
proof (induction js arbitrary: s)
  case Nil
  then show ?case by simp
next
  case (Cons j js)
  from Cons.prems obtain s1 where a: "finalizeEdge m j s = Some s1"
    and b: "forEach (finalizeEdge m) js s1 = Some s'"
    by (auto split: option.splits)
  from Cons.IH [OF b] finalizeEdge_effect [OF a] show ?case by auto
qed

lemma forEach_finalizeEdge_at:
  "forEach (finalizeEdge m) js s = Some s' \<Longrightarrow> distinct js \<Longrightarrow> i \<in> set js \<Longrightarrow>
     \<exists>sv0 sv1. endpointSides m i (vertexSides s) = Some (sv0, sv1) \<and>
       vec_at (edgeSides s') i =
         (case edgeSideOf sv0 sv1 of None \<Rightarrow> vec_at (edgeSides s) i | Some side \<Rightarrow> Some side)"
proof (induction js arbitrary: s)
  case Nil
  then show ?case by simp
next
  case (Cons j js)
  from Cons.prems obtain s1 where a: "finalizeEdge m j s = Some s1"
    and b: "forEach (finalizeEdge m) js s1 = Some s'"
    by (auto split: option.splits)
  show ?case
  proof (cases "i = j")
    case True
    with Cons.prems have "i \<notin> set js" by simp
    with forEach_finalizeEdge_frame [OF b, of i]
    have "vec_at (edgeSides s') i = vec_at (edgeSides s1) i" by simp
    with finalizeEdge_at [OF a] show ?thesis unfolding True by simp
  next
    case False
    with Cons.prems have "i \<in> set js" "distinct js" by simp_all
    from Cons.IH [OF b this(2) this(1)] finalizeEdge_effect [OF a] False show ?thesis
      by (simp cong: option.case_cong)
  qed
qed

lemma finalizeFace_effect:
  assumes "finalizeFace m i s = Some s'"
  shows "vertexSides s' = vertexSides s" and "edgeSides s' = edgeSides s"
    and "length (faceSides s') = length (faceSides s)"
    and "j \<noteq> i \<Longrightarrow> vec_at (faceSides s') j = vec_at (faceSides s) j"
  using assms
  by (auto simp: finalizeFace_def Let_def vec_set_length vec_at_vec_set split: bind_splits)

lemma finalizeFace_at:
  assumes "finalizeFace m i s = Some s'"
  shows "\<exists>fd svs. vec_at (faceData m) i = Some fd \<and>
           sidesOf (vertexSides s) (fConnectedVertices fd) = Some svs \<and>
           vec_at (faceSides s') i =
             Some ((if contains svs LEFT then LEFT else CENTER) + (if contains svs RIGHT then RIGHT else CENTER))"
  using assms
  by (auto simp: finalizeFace_def Let_def vec_at_vec_set split: bind_splits)

lemma forEach_finalizeFace_frame:
  "forEach (finalizeFace m) js s = Some s' \<Longrightarrow>
     vertexSides s' = vertexSides s \<and> edgeSides s' = edgeSides s \<and>
     length (faceSides s') = length (faceSides s) \<and>
     (i \<notin> set js \<longrightarrow> vec_at (faceSides s') i = vec_at (faceSides s) i)"
proof (induction js arbitrary: s)
  case Nil
  then show ?case by simp
next
  case (Cons j js)
  from Cons.prems obtain s1 where a: "finalizeFace m j s = Some s1"
    and b: "forEach (finalizeFace m) js s1 = Some s'"
    by (auto split: option.splits)
  from Cons.IH [OF b] finalizeFace_effect [OF a] show ?case by auto
qed

lemma forEach_finalizeFace_at:
  "forEach (finalizeFace m) js s = Some s' \<Longrightarrow> distinct js \<Longrightarrow> i \<in> set js \<Longrightarrow>
     \<exists>fd svs. vec_at (faceData m) i = Some fd \<and>
           sidesOf (vertexSides s) (fConnectedVertices fd) = Some svs \<and>
           vec_at (faceSides s') i =
             Some ((if contains svs LEFT then LEFT else CENTER) + (if contains svs RIGHT then RIGHT else CENTER))"
proof (induction js arbitrary: s)
  case Nil
  then show ?case by simp
next
  case (Cons j js)
  from Cons.prems obtain s1 where a: "finalizeFace m j s = Some s1"
    and b: "forEach (finalizeFace m) js s1 = Some s'"
    by (auto split: option.splits)
  show ?case
  proof (cases "i = j")
    case True
    with Cons.prems have "i \<notin> set js" by simp
    with forEach_finalizeFace_frame [OF b, of i]
    have "vec_at (faceSides s') i = vec_at (faceSides s1) i" by simp
    with finalizeFace_at [OF a] show ?thesis unfolding True by simp
  next
    case False
    with Cons.prems have "i \<in> set js" "distinct js" by simp_all
    from Cons.IH [OF b this(2) this(1)] finalizeFace_effect [OF a] False show ?thesis by simp
  qed
qed

lemma upto_index: "0 \<le> i \<Longrightarrow> i < int n \<Longrightarrow> i \<in> set (map int [0..<n])"
  by (auto simp: image_iff intro!: bexI [of _ "nat i"])

lemma distinct_upto: "distinct (map int [0..<n])"
  by (simp add: distinct_map inj_on_def)

lemma sidesOf_set:
  "sidesOf sides vs = Some svs \<Longrightarrow> (x \<in> set svs) = (\<exists>v \<in> set vs. vec_at sides v = Some x)"
  by (induction vs arbitrary: svs) (auto split: option.splits)

text \<open>
  C4: after \<^verbatim>\<open>finalizeSymmetry\<close>, the side of every edge is determined by the sides
  \<open>sv0\<close> and \<open>sv1\<close> of its two end points, tested in this order: both CENTER gives
  CENTER; otherwise RIGHT if either is RIGHT; otherwise LEFT if either is LEFT.  An edge
  with one LEFT and one RIGHT end point is therefore RIGHT.
\<close>

theorem edge_side_from_endpoints:
  assumes "finalizeSymmetry m s = Some s'" and "0 \<le> i" and "i < int (numberOfEdges m)"
  shows "\<exists>sv0 sv1. endpointSides m i (vertexSides s') = Some (sv0, sv1) \<and>
           (sv0 = CENTER \<and> sv1 = CENTER \<longrightarrow> vec_at (edgeSides s') i = Some CENTER) \<and>
           (\<not> (sv0 = CENTER \<and> sv1 = CENTER) \<and> (sv0 = RIGHT \<or> sv1 = RIGHT) \<longrightarrow>
              vec_at (edgeSides s') i = Some RIGHT) \<and>
           (\<not> (sv0 = CENTER \<and> sv1 = CENTER) \<and> \<not> (sv0 = RIGHT \<or> sv1 = RIGHT) \<and>
              (sv0 = LEFT \<or> sv1 = LEFT) \<longrightarrow> vec_at (edgeSides s') i = Some LEFT) \<and>
           ((sv0 = LEFT \<and> sv1 = RIGHT) \<or> (sv0 = RIGHT \<and> sv1 = LEFT) \<longrightarrow>
              vec_at (edgeSides s') i = Some RIGHT)"
proof -
  from assms(1) obtain s1 where e: "forEach (finalizeEdge m) (map int [0..<numberOfEdges m]) s = Some s1"
    and f: "forEach (finalizeFace m) (map int [0..<numberOfFaces m]) s1 = Some s'"
    by (auto simp: finalizeSymmetry_def split: bind_splits)
  from forEach_finalizeFace_frame [OF f] have 1: "vertexSides s' = vertexSides s1" "edgeSides s' = edgeSides s1"
    by simp_all
  from forEach_finalizeEdge_frame [OF e] have 2: "vertexSides s1 = vertexSides s" by simp
  from forEach_finalizeEdge_at [OF e distinct_upto upto_index [OF assms(2,3)]]
  obtain sv0 sv1 where r: "endpointSides m i (vertexSides s) = Some (sv0, sv1)"
    and v: "vec_at (edgeSides s1) i =
         (case edgeSideOf sv0 sv1 of None \<Rightarrow> vec_at (edgeSides s) i | Some side \<Rightarrow> Some side)"
    by blast
  from r v 1 2 show ?thesis
    by (auto simp: edgeSideOf_def)
qed

theorem edge_side_witness:
  "finalizeSymmetry quadMesh quadSided = Some quadFinal \<and>
   endpointSides quadMesh 0 (vertexSides quadFinal) = Some (LEFT, RIGHT) \<and>
   vec_at (edgeSides quadFinal) 0 = Some RIGHT"
proof -
  have a: "finalizeSymmetry quadMesh quadSided = Some quadFinal" by (rule quad_finalized)
  have b: "endpointSides quadMesh 0 (vertexSides quadFinal) = Some (LEFT, RIGHT)" by code_simp
  have r: "(0::int) \<le> 0" "0 < int (numberOfEdges quadMesh)" by (simp_all add: quadMesh_def)
  from edge_side_from_endpoints [OF a r] b
  have c: "vec_at (edgeSides quadFinal) 0 = Some RIGHT" by simp
  from a b c show ?thesis by simp
qed

text \<open>
  C5: after \<^verbatim>\<open>finalizeSymmetry\<close>, the side of every face is 1 if some vertex of its loop
  is LEFT (else 0) plus -1 if some vertex of its loop is RIGHT (else 0).  A face with
  both a LEFT and a RIGHT vertex is CENTER.
\<close>

theorem face_side_from_loop:
  assumes "finalizeSymmetry m s = Some s'" and "0 \<le> i" and "i < int (numberOfFaces m)"
  shows "\<exists>fd. vec_at (faceData m) i = Some fd \<and>
           vec_at (faceSides s') i =
             Some ((if \<exists>v \<in> set (fConnectedVertices fd). vec_at (vertexSides s') v = Some LEFT then 1 else 0)
                 + (if \<exists>v \<in> set (fConnectedVertices fd). vec_at (vertexSides s') v = Some RIGHT then - 1 else 0)) \<and>
           ((\<exists>v \<in> set (fConnectedVertices fd). vec_at (vertexSides s') v = Some LEFT) \<and>
            (\<exists>v \<in> set (fConnectedVertices fd). vec_at (vertexSides s') v = Some RIGHT) \<longrightarrow>
              vec_at (faceSides s') i = Some CENTER)"
proof -
  from assms(1) obtain s1 where e: "forEach (finalizeEdge m) (map int [0..<numberOfEdges m]) s = Some s1"
    and f: "forEach (finalizeFace m) (map int [0..<numberOfFaces m]) s1 = Some s'"
    by (auto simp: finalizeSymmetry_def split: bind_splits)
  from forEach_finalizeFace_frame [OF f] have 1: "vertexSides s' = vertexSides s1"
    by simp
  from forEach_finalizeFace_at [OF f distinct_upto upto_index [OF assms(2,3)]]
  obtain fd svs where r: "vec_at (faceData m) i = Some fd"
    and sv: "sidesOf (vertexSides s1) (fConnectedVertices fd) = Some svs"
    and v: "vec_at (faceSides s') i =
             Some ((if contains svs LEFT then LEFT else CENTER) + (if contains svs RIGHT then RIGHT else CENTER))"
    by blast
  from r v 1 sidesOf_set [OF sv] show ?thesis
    by (simp add: contains_def)
qed

theorem face_side_witness:
  "finalizeSymmetry quadMesh quadSided = Some quadFinal \<and>
   vec_at (faceData quadMesh) 0 = Some \<lparr> fConnectedVertices = [0, 1, 2, 3], fConnectedEdges = [0, 1, 2, 3] \<rparr> \<and>
   vec_at (vertexSides quadFinal) 0 = Some LEFT \<and>
   vec_at (vertexSides quadFinal) 1 = Some RIGHT \<and>
   vec_at (faceSides quadFinal) 0 = Some CENTER"
proof -
  have a: "finalizeSymmetry quadMesh quadSided = Some quadFinal" by (rule quad_finalized)
  have fd: "vec_at (faceData quadMesh) 0 = Some \<lparr> fConnectedVertices = [0, 1, 2, 3], fConnectedEdges = [0, 1, 2, 3] \<rparr>"
    by code_simp
  have l: "vec_at (vertexSides quadFinal) 0 = Some LEFT" by code_simp
  have r: "vec_at (vertexSides quadFinal) 1 = Some RIGHT" by code_simp
  have i: "(0::int) \<le> 0" "0 < int (numberOfFaces quadMesh)" by (simp_all add: quadMesh_def)
  from face_side_from_loop [OF a i] fd l r
  have c: "vec_at (faceSides quadFinal) 0 = Some CENTER" by auto
  from a fd l r c show ?thesis by simp
qed

section \<open>Face edge completion skips an ambiguous edge\<close>

text \<open>
  C6: in \<^verbatim>\<open>findSymmetricalEdgesOnFace\<close>, when the edge \<open>e\<close> is unexamined, both of its
  end points have partners, and the connected edges of the two partners do not share
  exactly one edge, the pass for \<open>e\<close> marks nothing and pushes nothing (queue and
  state come back as they were), and the loop goes on with the remaining edges.
\<close>

theorem ambiguous_edge_is_skipped:
  assumes "vec_at (examinedEdges s) e = Some False"
    and "partnerVertices m e s = Some (vertex0, vertex1)"
    and "vertex0 \<noteq> - 1" and "vertex1 \<noteq> - 1"
    and "sharedEdgesOf m vertex0 vertex1 = Some sharedEdges"
    and "length sharedEdges \<noteq> 1"
  shows "completeEdge m e (q, s) = Some (q, s) \<and>
         completeEdges m (e # rest) (q, s) = completeEdges m rest (q, s)"
  using assms by (simp add: completeEdge_def)

theorem ambiguous_edge_witness:
  "vec_at (examinedEdges quadResolved) 1 = Some False \<and>
   partnerVertices quadMesh 1 quadResolved = Some (1, 3) \<and>
   sharedEdgesOf quadMesh 1 3 = Some [] \<and>
   completeEdge quadMesh 1 ([], quadResolved) = Some ([], quadResolved) \<and>
   completeEdges quadMesh [1, 2] ([], quadResolved) = completeEdges quadMesh [2] ([], quadResolved)"
proof -
  have a: "vec_at (examinedEdges quadResolved) 1 = Some False" by code_simp
  have b: "partnerVertices quadMesh 1 quadResolved = Some (1, 3)" by code_simp
  have c: "sharedEdgesOf quadMesh 1 3 = Some []" by code_simp
  from ambiguous_edge_is_skipped [OF a b _ _ c, of "[]" "[2]"] a b c show ?thesis by simp
qed


section \<open>A dequeued pair without an unexamined face\<close>

text \<open>
  C9, as stated, fails: the pass marks the dequeued edge pair before it looks for
  faces.  On the two quads the seed pair of edges (0, 1) has no unexamined face left
  after seed resolution, and the pass that drops it changes the edge table.
\<close>

theorem dead_end_marks_edges_counterexample:
  "getUnexaminedFaces twoQuads (0, 1) twoSeeded = Some (- 1, - 1) \<and>
   examineEdgePair twoQuads (0, 1) ([], twoSeeded) =
     Some ([], twoSeeded\<lparr> examinedEdges := [True, True, False, False, False, False, False],
                          edgeSymmetryIndices := [1, 0, - 1, - 1, - 1, - 1, - 1] \<rparr>) \<and>
   examinedEdges twoSeeded = [False, False, False, False, False, False, False] \<and>
   edgeSymmetryIndices twoSeeded = [- 1, - 1, - 1, - 1, - 1, - 1, - 1]"
  by code_simp

text \<open>
  C9, amended: when \<^verbatim>\<open>getUnexaminedFaces\<close> returns \<open>-1\<close> for either face, the pass
  pushes nothing and its whole effect is \<^verbatim>\<open>markSymmetricalEdges\<close> on the dequeued pair:
  no vertex or face entry changes, no entry of another edge changes, and nothing at
  all changes when the two edges were already marked as partners of each other.
\<close>

theorem dead_end_pair_dropped:
  assumes "markSymmetricalEdges (fst edgePair) (snd edgePair) s = Some s1"
    and "getUnexaminedFaces m edgePair s1 = Some facesPair"
    and "fst facesPair = - 1 \<or> snd facesPair = - 1"
  shows "examineEdgePair m edgePair (q, s) = Some (q, s1) \<and>
         vertexSymmetryIndices s1 = vertexSymmetryIndices s \<and>
         examinedVertices s1 = examinedVertices s \<and>
         faceSymmetryIndices s1 = faceSymmetryIndices s \<and>
         examinedFaces s1 = examinedFaces s \<and>
         (\<forall>j. j \<noteq> fst edgePair \<and> j \<noteq> snd edgePair \<longrightarrow>
            vec_at (edgeSymmetryIndices s1) j = vec_at (edgeSymmetryIndices s) j \<and>
            vec_at (examinedEdges s1) j = vec_at (examinedEdges s) j) \<and>
         (vec_at (edgeSymmetryIndices s) (fst edgePair) = Some (snd edgePair) \<and>
          vec_at (edgeSymmetryIndices s) (snd edgePair) = Some (fst edgePair) \<and>
          vec_at (examinedEdges s) (fst edgePair) = Some True \<and>
          vec_at (examinedEdges s) (snd edgePair) = Some True \<longrightarrow> s1 = s)"
proof -
  from markSymmetricalEdges_effect [OF assms(1)] obtain t
    where t: "markPair (fst edgePair) (snd edgePair) (edgeSymmetryIndices s, examinedEdges s) = Some t"
      and s1: "s1 = s\<lparr>edgeSymmetryIndices := fst t, examinedEdges := snd t\<rparr>"
    by blast
  have 1: "examineEdgePair m edgePair (q, s) = Some (q, s1)"
    using assms by (simp add: examineEdgePair_def)
  have 2: "\<forall>j. j \<noteq> fst edgePair \<and> j \<noteq> snd edgePair \<longrightarrow>
            vec_at (edgeSymmetryIndices s1) j = vec_at (edgeSymmetryIndices s) j \<and>
            vec_at (examinedEdges s1) j = vec_at (examinedEdges s) j"
    using markPair_other [OF t] s1 by simp
  have 3: "s1 = s"
    if "vec_at (edgeSymmetryIndices s) (fst edgePair) = Some (snd edgePair) \<and>
        vec_at (edgeSymmetryIndices s) (snd edgePair) = Some (fst edgePair) \<and>
        vec_at (examinedEdges s) (fst edgePair) = Some True \<and>
        vec_at (examinedEdges s) (snd edgePair) = Some True"
  proof -
    from that have "markPair (fst edgePair) (snd edgePair) (edgeSymmetryIndices s, examinedEdges s)
                     = Some (edgeSymmetryIndices s, examinedEdges s)"
      by (intro markPair_idem) simp_all
    with t have "t = (edgeSymmetryIndices s, examinedEdges s)" by simp
    with s1 show ?thesis by simp
  qed
  from 1 2 3 s1 show ?thesis by simp
qed

theorem dead_end_pair_witness:
  "markSymmetricalEdges 0 1 twoResolved = Some twoResolved \<and>
   getUnexaminedFaces twoQuads (0, 1) twoResolved = Some (- 1, - 1) \<and>
   examineEdgePair twoQuads (0, 1) ([], twoResolved) = Some ([], twoResolved)"
proof -
  have a: "markSymmetricalEdges (fst (0, 1)) (snd (0, 1)) twoResolved = Some twoResolved" by code_simp
  have b: "getUnexaminedFaces twoQuads (0, 1) twoResolved = Some (- 1, - 1)" by code_simp
  from dead_end_pair_dropped [OF a b, of "[]"] a b show ?thesis by simp
qed


section \<open>A self-symmetric left vertex\<close>

text \<open>
  C2 at a failing input: on the two quads, seeded with the centre vertex 1 as the left
  vertex, the propagation engine makes vertex 1 its own partner, and
  \<^verbatim>\<open>findVertexSides\<close> leaves it RIGHT, since the loop that seeds the right side
  overwrites the CENTER that the first flood fill gave it.
\<close>

theorem centre_seed_ends_right:
  "findSymmetricalVertices 8 twoQuads twoSeed (reset twoQuads) = Returned (Some twoResolved) \<and>
   leftSideVertexIndices twoResolved = [1] \<and>
   vec_at (vertexSymmetryIndices twoResolved) 1 = Some 1 \<and>
   findVertexSides twoQuads [1] twoResolved = Some (twoResolved\<lparr>vertexSides := [0, - 1, 0, 0, 0, 0]\<rparr>)"
  by code_simp

lemma strip_run:
  "findSymmetricalVertices 18 stripAndQuad stripSeed (reset stripAndQuad) = Returned (Some stripResolved)"
  by code_simp

section \<open>The worklist drains\<close>

lemma markSymmetricalVertices_effect:
  assumes "markSymmetricalVertices i0 i1 s = Some s'"
  shows "\<exists>t. markPair i0 i1 (vertexSymmetryIndices s, examinedVertices s) = Some t \<and>
           s' = s\<lparr>vertexSymmetryIndices := fst t, examinedVertices := snd t\<rparr>"
  using assms by (auto simp: markSymmetricalVertices_def split: option.splits)

lemma markSymmetricalFaces_effect:
  assumes "markSymmetricalFaces i0 i1 s = Some s'"
  shows "\<exists>t. markPair i0 i1 (faceSymmetryIndices s, examinedFaces s) = Some t \<and>
           s' = s\<lparr>faceSymmetryIndices := fst t, examinedFaces := snd t\<rparr>"
  using assms by (auto simp: markSymmetricalFaces_def split: option.splits)

lemma walkFaceVertices_edges:
  "walkFaceVertices m facePair q s = Some s' \<Longrightarrow> examinedEdges s' = examinedEdges s"
proof (induction m facePair q s rule: walkFaceVertices.induct)
  case (1 m facePair s)
  then show ?case by simp
next
  case (2 m facePair vertex0 q s)
  from "2.prems" obtain vertex1 nextVertex0 nextVertex1
    where a: "vec_at (vertexSymmetryIndices s) vertex0 = Some vertex1"
      and b: "getUnexaminedVertexSibling m vertex0 (fst facePair) s = Some nextVertex0"
      and c: "getUnexaminedVertexSibling m vertex1 (snd facePair) s = Some nextVertex1"
    by (auto split: option.splits)
  show ?case
  proof (cases "nextVertex0 = - 1 \<or> nextVertex1 = - 1")
    case True
    with "2.prems" a b c have "walkFaceVertices m facePair q s = Some s'" by simp
    from "2.IH"(1) [OF a b c True this] show ?thesis .
  next
    case False
    with "2.prems" a b c obtain s1 where d: "markSymmetricalVertices nextVertex0 nextVertex1 s = Some s1"
      and e: "walkFaceVertices m facePair (q @ [nextVertex0]) s1 = Some s'"
      by (auto split: option.splits)
    from "2.IH"(2) [OF a b c False d e] markSymmetricalVertices_effect [OF d] show ?thesis by auto
  qed
qed

lemma findSymmetricalVerticesOnFace_edges:
  "findSymmetricalVerticesOnFace m facePair s = Some s' \<Longrightarrow> examinedEdges s' = examinedEdges s"
  by (auto simp: findSymmetricalVerticesOnFace_def split: bind_splits dest: walkFaceVertices_edges)

lemma completeEdge_measure:
  assumes "completeEdge m e (q, s) = Some (q', s')"
  shows "length q' + unexamined (examinedEdges s') \<le> length q + unexamined (examinedEdges s)"
proof (cases "q' = q \<and> s' = s")
  case True
  then show ?thesis by simp
next
  case False
  with assms obtain edgeIndex
    where un: "vec_at (examinedEdges s) e = Some False"
      and mk: "markSymmetricalEdges e edgeIndex s = Some s'"
      and q': "length q' \<le> Suc (length q)"
    by (auto simp: completeEdge_def split: bind_splits if_splits)
  from markSymmetricalEdges_effect [OF mk] obtain t
    where t: "markPair e edgeIndex (edgeSymmetryIndices s, examinedEdges s) = Some t"
      and s': "s' = s\<lparr>edgeSymmetryIndices := fst t, examinedEdges := snd t\<rparr>"
    by blast
  from markPair_unexamined_less [OF t] un s'
  have "unexamined (examinedEdges s') < unexamined (examinedEdges s)" by simp
  with q' show ?thesis by simp
qed

lemma completeEdges_measure:
  "completeEdges m es (q, s) = Some (q', s') \<Longrightarrow>
     length q' + unexamined (examinedEdges s') \<le> length q + unexamined (examinedEdges s)"
proof (induction es arbitrary: q s)
  case Nil
  then show ?case by simp
next
  case (Cons e es)
  from Cons.prems obtain q1 s1 where a: "completeEdge m e (q, s) = Some (q1, s1)"
    and b: "completeEdges m es (q1, s1) = Some (q', s')"
    by (auto split: option.splits)
  from completeEdge_measure [OF a] Cons.IH [OF b] show ?case by simp
qed

lemma examineEdgePair_measure:
  assumes "examineEdgePair m edgePair (q, s) = Some (q', s')"
  shows "length q' + unexamined (examinedEdges s') \<le> length q + unexamined (examinedEdges s)"
proof -
  from assms obtain s1 facesPair
    where mk: "markSymmetricalEdges (fst edgePair) (snd edgePair) s = Some s1"
      and fp: "getUnexaminedFaces m edgePair s1 = Some facesPair"
    by (auto simp: examineEdgePair_def split: bind_splits)
  from markSymmetricalEdges_effect [OF mk] obtain t
    where t: "markPair (fst edgePair) (snd edgePair) (edgeSymmetryIndices s, examinedEdges s) = Some t"
      and s1: "s1 = s\<lparr>edgeSymmetryIndices := fst t, examinedEdges := snd t\<rparr>"
    by blast
  from markPair_unexamined_le [OF t] s1
  have le1: "unexamined (examinedEdges s1) \<le> unexamined (examinedEdges s)" by simp
  show ?thesis
  proof (cases "fst facesPair = - 1 \<or> snd facesPair = - 1")
    case True
    with assms mk fp have "q' = q" "s' = s1" by (simp_all add: examineEdgePair_def)
    with le1 show ?thesis by simp
  next
    case False
    with assms mk fp obtain s2 s3
      where f: "markSymmetricalFaces (fst facesPair) (snd facesPair) s1 = Some s2"
        and v: "findSymmetricalVerticesOnFace m facesPair s2 = Some s3"
        and e: "findSymmetricalEdgesOnFace m (fst facesPair) (q, s3) = Some (q', s')"
      by (auto simp: examineEdgePair_def split: bind_splits)
    from markSymmetricalFaces_effect [OF f] have "examinedEdges s2 = examinedEdges s1" by auto
    with findSymmetricalVerticesOnFace_edges [OF v] have eq: "examinedEdges s3 = examinedEdges s1" by simp
    from e obtain fd :: FaceData where "completeEdges m (fConnectedEdges fd) (q, s3) = Some (q', s')"
      by (auto simp: findSymmetricalEdgesOnFace_def split: option.splits)
    from completeEdges_measure [OF this] eq le1 show ?thesis by simp
  qed
qed

lemma drainEdgeQueue_returns:
  "length q + unexamined (examinedEdges s) \<le> fuel \<Longrightarrow> \<exists>r. drainEdgeQueue fuel m q s = Returned r"
proof (induction fuel arbitrary: q s)
  case 0
  then show ?case by simp
next
  case (Suc fuel)
  show ?case
  proof (cases q)
    case Nil
    then show ?thesis by simp
  next
    case (Cons edgePair rest)
    show ?thesis
    proof (cases "examineEdgePair m edgePair (rest, s)")
      case None
      with Cons show ?thesis by simp
    next
      case (Some qs)
      obtain q' s' where qs: "qs = (q', s')" by (cases qs)
      from examineEdgePair_measure [OF Some [unfolded qs]] Suc.prems Cons
      have "length q' + unexamined (examinedEdges s') \<le> fuel" by simp
      from Suc.IH [OF this] Cons Some qs show ?thesis by simp
    qed
  qed
qed

lemma unexamined_le_length: "unexamined ex \<le> length ex"
  by (simp add: unexamined_def)

lemma findFirstSymmetricalVertices_edges:
  assumes "findFirstSymmetricalVertices m selection s = Some s'"
  shows "examinedEdges s' = examinedEdges s"
proof -
  from assms obtain s1 s2 s3 n0 n1
    where a: "markSymmetricalVertices (fst (vertexIndices selection)) (snd (vertexIndices selection)) s = Some s1"
      and b: "markSymmetricalFaces (fst (faceIndices selection)) (snd (faceIndices selection)) s1 = Some s2"
      and c: "markSymmetricalVertices n0 n1 s2 = Some s3"
      and d: "findSymmetricalVerticesOnFace m (faceIndices selection) s3 = Some s'"
    by (auto simp: findFirstSymmetricalVertices_def Let_def split: bind_splits)
  from markSymmetricalVertices_effect [OF a] markSymmetricalFaces_effect [OF b]
    markSymmetricalVertices_effect [OF c] findSymmetricalVerticesOnFace_edges [OF d]
  show ?thesis by auto
qed

lemma completeEdge_push:
  assumes "completeEdge m e (q, s) = Some (q', s')"
  shows "(q' = q \<or>
          (\<exists>edgeIndex. q' = q @ [(e, edgeIndex)] \<and>
             vec_at (examinedEdges s) e = Some False \<and>
             vec_at (examinedEdges s) edgeIndex = Some False \<and>
             vec_at (examinedEdges s') e = Some True \<and>
             vec_at (examinedEdges s') edgeIndex = Some True))"
proof (cases "q' = q")
  case True
  then show ?thesis by simp
next
  case False
  with assms obtain edgeIndex
    where un: "vec_at (examinedEdges s) e = Some False"
      and un': "vec_at (examinedEdges s) edgeIndex = Some False"
      and mk: "markSymmetricalEdges e edgeIndex s = Some s'"
      and q': "q' = q @ [(e, edgeIndex)]"
    by (auto simp: completeEdge_def split: bind_splits if_splits)
  from markSymmetricalEdges_effect [OF mk] obtain t
    where t: "markPair e edgeIndex (edgeSymmetryIndices s, examinedEdges s) = Some t"
      and s': "s' = s\<lparr>edgeSymmetryIndices := fst t, examinedEdges := snd t\<rparr>"
    by blast
  from t have "vec_at (snd t) e = Some True" "vec_at (snd t) edgeIndex = Some True"
    by (auto simp: markPair_def vec_at_vec_set split: bind_splits)
  with s' un un' q' show ?thesis by simp
qed

lemma markSymmetricalEdges_flags:
  assumes "markSymmetricalEdges a b s = Some s'"
  shows "vec_at (examinedEdges s') x = (if x = a \<or> x = b then Some True else vec_at (examinedEdges s) x)"
proof -
  from markSymmetricalEdges_effect [OF assms] obtain t
    where t: "markPair a b (edgeSymmetryIndices s, examinedEdges s) = Some t"
      and s': "s' = s\<lparr>edgeSymmetryIndices := fst t, examinedEdges := snd t\<rparr>"
    by blast
  from markPair_at(2) [OF t, of x] s' show ?thesis by simp
qed

lemma completeEdge_pass:
  assumes "completeEdge m e (q, s) = Some (q', s')"
  shows "(\<forall>x. vec_at (examinedEdges s') x = Some False \<longrightarrow> vec_at (examinedEdges s) x = Some False) \<and>
         (\<forall>x. vec_at (examinedEdges s) x = Some True \<longrightarrow> vec_at (examinedEdges s') x = Some True) \<and>
         (\<exists>new. q' = q @ new \<and>
            (\<forall>ab \<in> set new.
               vec_at (examinedEdges s) (fst ab) = Some False \<and>
               vec_at (examinedEdges s) (snd ab) = Some False \<and>
               vec_at (examinedEdges s') (fst ab) = Some True \<and>
               vec_at (examinedEdges s') (snd ab) = Some True))"
proof (cases "q' = q \<and> s' = s")
  case True
  then show ?thesis by simp
next
  case False
  with assms obtain edgeIndex found
    where un: "vec_at (examinedEdges s) e = Some False"
      and fd: "vec_at (examinedEdges s) edgeIndex = Some found"
      and mk: "markSymmetricalEdges e edgeIndex s = Some s'"
      and q': "q' = (if \<not> found then q @ [(e, edgeIndex)] else q)"
    by (auto simp: completeEdge_def split: bind_splits if_splits)
  note fl = markSymmetricalEdges_flags [OF mk]
  have a: "\<forall>x. vec_at (examinedEdges s') x = Some False \<longrightarrow> vec_at (examinedEdges s) x = Some False"
    using fl by (simp split: if_splits)
  have b: "\<forall>x. vec_at (examinedEdges s) x = Some True \<longrightarrow> vec_at (examinedEdges s') x = Some True"
    using fl by simp
  show ?thesis
  proof (cases found)
    case True
    with q' have "q' = q @ []" by simp
    with a b show ?thesis by (intro conjI exI [of _ "[]"]) simp_all
  next
    case False
    with q' have "q' = q @ [(e, edgeIndex)]" by simp
    with a b un fd False fl show ?thesis by (intro conjI exI [of _ "[(e, edgeIndex)]"]) simp_all
  qed
qed

lemma completeEdges_pass:
  "completeEdges m es (q, s) = Some (q', s') \<Longrightarrow>
     (\<forall>x. vec_at (examinedEdges s') x = Some False \<longrightarrow> vec_at (examinedEdges s) x = Some False) \<and>
     (\<forall>x. vec_at (examinedEdges s) x = Some True \<longrightarrow> vec_at (examinedEdges s') x = Some True) \<and>
     (\<exists>new. q' = q @ new \<and>
        (\<forall>ab \<in> set new.
           vec_at (examinedEdges s) (fst ab) = Some False \<and>
           vec_at (examinedEdges s) (snd ab) = Some False \<and>
           vec_at (examinedEdges s') (fst ab) = Some True \<and>
           vec_at (examinedEdges s') (snd ab) = Some True))"
proof (induction es arbitrary: q s)
  case Nil
  then show ?case by simp
next
  case (Cons e es)
  from Cons.prems obtain q1 s1 where a: "completeEdge m e (q, s) = Some (q1, s1)"
    and b: "completeEdges m es (q1, s1) = Some (q', s')"
    by (auto split: option.splits)
  from completeEdge_pass [OF a] obtain new1
    where f1: "\<And>x. vec_at (examinedEdges s1) x = Some False \<Longrightarrow> vec_at (examinedEdges s) x = Some False"
      and t1: "\<And>x. vec_at (examinedEdges s) x = Some True \<Longrightarrow> vec_at (examinedEdges s1) x = Some True"
      and q1: "q1 = q @ new1"
      and n1: "\<And>ab. ab \<in> set new1 \<Longrightarrow>
               vec_at (examinedEdges s) (fst ab) = Some False \<and>
               vec_at (examinedEdges s) (snd ab) = Some False \<and>
               vec_at (examinedEdges s1) (fst ab) = Some True \<and>
               vec_at (examinedEdges s1) (snd ab) = Some True"
    by blast
  from Cons.IH [OF b] obtain new2
    where f2: "\<And>x. vec_at (examinedEdges s') x = Some False \<Longrightarrow> vec_at (examinedEdges s1) x = Some False"
      and t2: "\<And>x. vec_at (examinedEdges s1) x = Some True \<Longrightarrow> vec_at (examinedEdges s') x = Some True"
      and q2: "q' = q1 @ new2"
      and n2: "\<And>ab. ab \<in> set new2 \<Longrightarrow>
               vec_at (examinedEdges s1) (fst ab) = Some False \<and>
               vec_at (examinedEdges s1) (snd ab) = Some False \<and>
               vec_at (examinedEdges s') (fst ab) = Some True \<and>
               vec_at (examinedEdges s') (snd ab) = Some True"
    by blast
  have "q' = q @ (new1 @ new2)" using q1 q2 by simp
  moreover have "\<forall>ab \<in> set (new1 @ new2).
           vec_at (examinedEdges s) (fst ab) = Some False \<and>
           vec_at (examinedEdges s) (snd ab) = Some False \<and>
           vec_at (examinedEdges s') (fst ab) = Some True \<and>
           vec_at (examinedEdges s') (snd ab) = Some True"
    using n1 n2 f1 t2 by auto
  ultimately show ?case using f1 f2 t1 t2 by blast
qed

lemma examineEdgePair_pass:
  assumes "examineEdgePair m edgePair (q, s) = Some (q', s')"
  shows "vec_at (examinedEdges s') (fst edgePair) = Some True \<and>
         vec_at (examinedEdges s') (snd edgePair) = Some True \<and>
         (\<forall>x. vec_at (examinedEdges s) x = Some True \<longrightarrow> vec_at (examinedEdges s') x = Some True) \<and>
         (\<exists>new. q' = q @ new \<and>
            (\<forall>ab \<in> set new.
               vec_at (examinedEdges s) (fst ab) = Some False \<and>
               vec_at (examinedEdges s) (snd ab) = Some False \<and>
               vec_at (examinedEdges s') (fst ab) = Some True \<and>
               vec_at (examinedEdges s') (snd ab) = Some True))"
proof -
  from assms obtain s1 facesPair
    where mk: "markSymmetricalEdges (fst edgePair) (snd edgePair) s = Some s1"
      and fp: "getUnexaminedFaces m edgePair s1 = Some facesPair"
    by (auto simp: examineEdgePair_def split: bind_splits)
  note fl = markSymmetricalEdges_flags [OF mk]
  show ?thesis
  proof (cases "fst facesPair = - 1 \<or> snd facesPair = - 1")
    case True
    with assms mk fp have "q' = q @ []" "s' = s1" by (simp_all add: examineEdgePair_def)
    with fl show ?thesis by (intro conjI exI [of _ "[]"]) simp_all
  next
    case False
    with assms mk fp obtain s2 s3
      where f: "markSymmetricalFaces (fst facesPair) (snd facesPair) s1 = Some s2"
        and v: "findSymmetricalVerticesOnFace m facesPair s2 = Some s3"
        and e: "findSymmetricalEdgesOnFace m (fst facesPair) (q, s3) = Some (q', s')"
      by (auto simp: examineEdgePair_def split: bind_splits)
    from markSymmetricalFaces_effect [OF f] have "examinedEdges s2 = examinedEdges s1" by auto
    with findSymmetricalVerticesOnFace_edges [OF v] have eq: "examinedEdges s3 = examinedEdges s1" by simp
    from e obtain fd :: FaceData where "completeEdges m (fConnectedEdges fd) (q, s3) = Some (q', s')"
      by (auto simp: findSymmetricalEdgesOnFace_def split: option.splits)
    from completeEdges_pass [OF this, unfolded eq] obtain new
      where t: "\<And>x. vec_at (examinedEdges s1) x = Some True \<Longrightarrow> vec_at (examinedEdges s') x = Some True"
        and q': "q' = q @ new"
        and n: "\<And>ab. ab \<in> set new \<Longrightarrow>
               vec_at (examinedEdges s1) (fst ab) = Some False \<and>
               vec_at (examinedEdges s1) (snd ab) = Some False \<and>
               vec_at (examinedEdges s') (fst ab) = Some True \<and>
               vec_at (examinedEdges s') (snd ab) = Some True"
      by blast
    have a: "vec_at (examinedEdges s') (fst edgePair) = Some True"
      "vec_at (examinedEdges s') (snd edgePair) = Some True"
      using t fl by simp_all
    have b: "\<forall>x. vec_at (examinedEdges s) x = Some True \<longrightarrow> vec_at (examinedEdges s') x = Some True"
      using t fl by simp
    have c: "\<forall>ab \<in> set new.
               vec_at (examinedEdges s) (fst ab) = Some False \<and>
               vec_at (examinedEdges s) (snd ab) = Some False \<and>
               vec_at (examinedEdges s') (fst ab) = Some True \<and>
               vec_at (examinedEdges s') (snd ab) = Some True"
    proof
      fix ab assume "ab \<in> set new"
      from n [OF this] fl [of "fst ab"] fl [of "snd ab"]
      show "vec_at (examinedEdges s) (fst ab) = Some False \<and>
               vec_at (examinedEdges s) (snd ab) = Some False \<and>
               vec_at (examinedEdges s') (fst ab) = Some True \<and>
               vec_at (examinedEdges s') (snd ab) = Some True"
        by (auto split: if_splits)
    qed
    from a b c q' show ?thesis by blast
  qed
qed

lemma strip_seeded:
  "findFirstSymmetricalVertices stripAndQuad stripSeed ((reset stripAndQuad)\<lparr>leftSideVertexIndices := [0]\<rparr>) =
     Some stripSeeded"
  by code_simp

lemma strip_first_pass:
  "examineEdgePair stripAndQuad (9, 11) ([], stripSeeded) = Some ([(0, 3), (4, 7), (8, 12)], stripResolved)"
  by code_simp

text \<open>
  C7, as stated, fails in its reason: an edge pair is not marked examined before it is
  pushed.  On the strip the loop starts with the seed pair \<open>(9, 11)\<close> in the queue
  while no edge is examined; its first pass pushes \<open>(0, 3)\<close>, \<open>(4, 7)\<close> and \<open>(8, 12)\<close>,
  edges that were unexamined when the pass began; and face edge completion pushes
  \<open>(0, 3)\<close> from a state in which the edges 0 and 3 are both unexamined.
\<close>

theorem seed_pair_queued_unmarked_counterexample:
  "findSymmetricalVertices 18 stripAndQuad stripSeed (reset stripAndQuad) =
     drainEdgeQueue 18 stripAndQuad [(9, 11)] stripSeeded \<and>
   vec_at (examinedEdges stripSeeded) 9 = Some False \<and>
   vec_at (examinedEdges stripSeeded) 11 = Some False \<and>
   examineEdgePair stripAndQuad (9, 11) ([], stripSeeded) =
     Some ([(0, 3), (4, 7), (8, 12)], stripResolved) \<and>
   vec_at (examinedEdges stripSeeded) 0 = Some False \<and>
   vec_at (examinedEdges stripSeeded) 3 = Some False \<and>
   completeEdge stripAndQuad 0 ([], stripWalked) =
     Some ([(0, 3)], stripWalked
       \<lparr> edgeSymmetryIndices := [3, - 1, - 1, 0, - 1, - 1, - 1, - 1, - 1, 11, - 1, 9, - 1,
                                 - 1, - 1, - 1, - 1],
         examinedEdges := [True, False, False, True, False, False, False, False, False, True,
                           False, True, False, False, False, False, False] \<rparr>) \<and>
   vec_at (examinedEdges stripWalked) 0 = Some False \<and>
   vec_at (examinedEdges stripWalked) 3 = Some False"
  by code_simp

text \<open>
  C7, amended: the worklist loop of the propagation engine, started on a freshly reset
  table, ends after at most \<open>numberOfEdges + 1\<close> pops, for every mesh and every seed (it
  returns, with a table or with an out-of-range access).  The reason: seed resolution
  marks no edge, so the seed pair is queued unmarked; every pass marks the pair it
  dequeued and never clears a flag; and the pairs that a pass pushes consist of edges
  that were unexamined before the pass and are examined after it (face edge completion
  pushes a pair only when both of its edges are unexamined, and marks both in the same
  step).
\<close>

theorem worklist_drains:
  "(findFirstSymmetricalVertices m selection s0 = Some s1 \<longrightarrow> examinedEdges s1 = examinedEdges s0) \<and>
   (examineEdgePair m edgePair (qa, sa) = Some (qb, sb) \<longrightarrow>
      vec_at (examinedEdges sb) (fst edgePair) = Some True \<and>
      vec_at (examinedEdges sb) (snd edgePair) = Some True \<and>
      (\<forall>x. vec_at (examinedEdges sa) x = Some True \<longrightarrow> vec_at (examinedEdges sb) x = Some True) \<and>
      (\<exists>new. qb = qa @ new \<and>
         (\<forall>ab \<in> set new.
            vec_at (examinedEdges sa) (fst ab) = Some False \<and>
            vec_at (examinedEdges sa) (snd ab) = Some False \<and>
            vec_at (examinedEdges sb) (fst ab) = Some True \<and>
            vec_at (examinedEdges sb) (snd ab) = Some True))) \<and>
   (completeEdge m e (q, s) = Some (q', s') \<longrightarrow>
      q' = q \<or>
      (\<exists>edgeIndex. q' = q @ [(e, edgeIndex)] \<and>
         vec_at (examinedEdges s) e = Some False \<and>
         vec_at (examinedEdges s) edgeIndex = Some False \<and>
         vec_at (examinedEdges s') e = Some True \<and>
         vec_at (examinedEdges s') edgeIndex = Some True)) \<and>
   (numberOfEdges m < fuel \<longrightarrow>
      (\<exists>r. findSymmetricalVertices fuel m selection (reset m) = Returned r))"
proof (intro conjI impI)
  assume "findFirstSymmetricalVertices m selection s0 = Some s1"
  then show "examinedEdges s1 = examinedEdges s0" by (rule findFirstSymmetricalVertices_edges)
next
  assume pass: "examineEdgePair m edgePair (qa, sa) = Some (qb, sb)"
  note P = examineEdgePair_pass [OF pass]
  from P show "vec_at (examinedEdges sb) (fst edgePair) = Some True" by blast
  from P show "vec_at (examinedEdges sb) (snd edgePair) = Some True" by blast
  from P show "\<forall>x. vec_at (examinedEdges sa) x = Some True \<longrightarrow> vec_at (examinedEdges sb) x = Some True"
    by blast
  from P show "\<exists>new. qb = qa @ new \<and>
         (\<forall>ab \<in> set new.
            vec_at (examinedEdges sa) (fst ab) = Some False \<and>
            vec_at (examinedEdges sa) (snd ab) = Some False \<and>
            vec_at (examinedEdges sb) (fst ab) = Some True \<and>
            vec_at (examinedEdges sb) (snd ab) = Some True)"
    by blast
next
  assume "completeEdge m e (q, s) = Some (q', s')"
  then show "q' = q \<or>
      (\<exists>edgeIndex. q' = q @ [(e, edgeIndex)] \<and>
         vec_at (examinedEdges s) e = Some False \<and>
         vec_at (examinedEdges s) edgeIndex = Some False \<and>
         vec_at (examinedEdges s') e = Some True \<and>
         vec_at (examinedEdges s') edgeIndex = Some True)"
    by (rule completeEdge_push)
next
  assume fuel: "numberOfEdges m < fuel"
  let ?s0 = "if leftVertexIndex selection \<noteq> - 1
             then (reset m)\<lparr>leftSideVertexIndices := leftSideVertexIndices (reset m) @ [leftVertexIndex selection]\<rparr>
             else reset m"
  have len: "examinedEdges ?s0 = replicate (numberOfEdges m) False" by (simp add: reset_def)
  show "\<exists>r. findSymmetricalVertices fuel m selection (reset m) = Returned r"
  proof (cases "findFirstSymmetricalVertices m selection ?s0")
    case None
    then show ?thesis by (simp add: findSymmetricalVertices_def)
  next
    case (Some s1)
    from findFirstSymmetricalVertices_edges [OF Some] len
    have "examinedEdges s1 = replicate (numberOfEdges m) False" by simp
    with unexamined_le_length [of "examinedEdges s1"] fuel
    have "length [edgeIndices selection] + unexamined (examinedEdges s1) \<le> fuel" by simp
    from drainEdgeQueue_returns [OF this, of m] Some show ?thesis
      by (simp add: findSymmetricalVertices_def)
  qed
qed

theorem worklist_drains_witness:
  "findFirstSymmetricalVertices stripAndQuad stripSeed ((reset stripAndQuad)\<lparr>leftSideVertexIndices := [0]\<rparr>) =
     Some stripSeeded \<and>
   examinedEdges stripSeeded = examinedEdges ((reset stripAndQuad)\<lparr>leftSideVertexIndices := [0]\<rparr>) \<and>
   examineEdgePair stripAndQuad (9, 11) ([], stripSeeded) =
     Some ([(0, 3), (4, 7), (8, 12)], stripResolved) \<and>
   vec_at (examinedEdges stripResolved) 9 = Some True \<and>
   vec_at (examinedEdges stripResolved) 11 = Some True \<and>
   completeEdge stripAndQuad 0 ([], stripWalked) =
     Some ([(0, 3)], stripWalked
       \<lparr> edgeSymmetryIndices := [3, - 1, - 1, 0, - 1, - 1, - 1, - 1, - 1, 11, - 1, 9, - 1,
                                 - 1, - 1, - 1, - 1],
         examinedEdges := [True, False, False, True, False, False, False, False, False, True,
                           False, True, False, False, False, False, False] \<rparr>) \<and>
   numberOfEdges stripAndQuad < 18 \<and>
   findSymmetricalVertices 18 stripAndQuad stripSeed (reset stripAndQuad) = Returned (Some stripResolved) \<and>
   findSymmetricalVertices 3 stripAndQuad stripSeed (reset stripAndQuad) = TimedOut"
proof -
  let ?s0 = "(reset stripAndQuad)\<lparr>leftSideVertexIndices := [0]\<rparr>"
  let ?s2 = "stripWalked
       \<lparr> edgeSymmetryIndices := [3, - 1, - 1, 0, - 1, - 1, - 1, - 1, - 1, 11, - 1, 9, - 1,
                                 - 1, - 1, - 1, - 1],
         examinedEdges := [True, False, False, True, False, False, False, False, False, True,
                           False, True, False, False, False, False, False] \<rparr>"
  have a: "completeEdge stripAndQuad 0 ([], stripWalked) = Some ([(0, 3)], ?s2)"
    by code_simp
  have b: "numberOfEdges stripAndQuad < 18" by (simp add: stripAndQuad_def)
  have c: "findSymmetricalVertices 3 stripAndQuad stripSeed (reset stripAndQuad) = TimedOut"
    by code_simp
  note T = worklist_drains [of stripAndQuad stripSeed ?s0 stripSeeded "(9, 11)" "[]" stripSeeded
      "[(0, 3), (4, 7), (8, 12)]" stripResolved 0 "[]" stripWalked "[(0, 3)]" ?s2 18]
  from T strip_seeded have d: "examinedEdges stripSeeded = examinedEdges ?s0" by blast
  from T strip_first_pass have e: "vec_at (examinedEdges stripResolved) 9 = Some True"
    "vec_at (examinedEdges stripResolved) 11 = Some True" by simp_all
  from T b obtain r where "findSymmetricalVertices 18 stripAndQuad stripSeed (reset stripAndQuad) = Returned r"
    by blast
  with strip_run have f: "findSymmetricalVertices 18 stripAndQuad stripSeed (reset stripAndQuad) = Returned (Some stripResolved)"
    by simp
  from strip_seeded strip_first_pass a b c d e f show ?thesis by simp
qed

section \<open>The flood fills of the side classifier\<close>

lemma vec_at_mem: "vec_at xs i = Some x \<Longrightarrow> x \<in> set xs"
  by (auto simp: vec_at_def split: if_splits)

lemma vec_at_defined: "0 \<le> i \<Longrightarrow> i < int (length xs) \<Longrightarrow> \<exists>x. vec_at xs i = Some x"
  by (simp add: vec_at_def)

lemma vec_set_defined: "0 \<le> i \<Longrightarrow> i < int (length xs) \<Longrightarrow> \<exists>ys. vec_set xs i v = Some ys"
  by (simp add: vec_set_def)

lemma pushNeighbours_subset:
  "pushNeighbours seam symIdx visited vertexIndex ns = Some ps \<Longrightarrow> set ps \<subseteq> set ns"
  by (induction ns arbitrary: ps) (auto split: option.splits if_splits)

lemma pushNeighbours_defined:
  assumes "length symIdx = n" and "length visited = n"
  shows "\<forall>i \<in> set ns. 0 \<le> i \<and> i < int n \<Longrightarrow>
         \<exists>ps. pushNeighbours seam symIdx visited vertexIndex ns = Some ps"
proof (induction ns)
  case Nil
  show ?case by simp
next
  case (Cons i ns)
  from Cons.prems assms obtain vis partner
    where a: "vec_at visited i = Some vis" and b: "vec_at symIdx i = Some partner"
    by (auto simp: vec_at_def)
  from Cons obtain ps where "pushNeighbours seam symIdx visited vertexIndex ns = Some ps" by auto
  with a b show ?case by (cases seam; cases vis; simp)
qed

lemma floodSide_defined:
  "meshVerticesOK m \<Longrightarrow> numberOfVertices m = n \<Longrightarrow> length symIdx = n \<Longrightarrow>
   length visited = n \<Longrightarrow> length sides = n \<Longrightarrow> \<forall>v \<in> set q. 0 \<le> v \<and> v < int n \<Longrightarrow>
   \<exists>visited' sides'. floodSide m symIdx sd seam q (visited, sides) = Some (visited', sides') \<and>
      length visited' = n \<and> length sides' = n"
proof (induction m symIdx sd seam q "(visited, sides)" arbitrary: visited sides rule: floodSide.induct)
  case (1 m symIdx sd seam)
  then show ?case by simp
next
  case (2 m symIdx sd seam vertexIndex q visited sides)
  note ok = "2.prems"(1) and n = "2.prems"(2) and sym = "2.prems"(3)
  from "2.prems" have r: "0 \<le> vertexIndex" "vertexIndex < int n" and q: "\<forall>v \<in> set q. 0 \<le> v \<and> v < int n"
    by simp_all
  from r "2.prems" obtain vis where vis: "vec_at visited vertexIndex = Some vis"
    by (auto simp: vec_at_def)
  show ?case
  proof (cases vis)
    case True
    from "2.hyps"(1) [OF vis True ok n sym "2.prems"(4,5) q] vis True show ?thesis by simp
  next
    case False
    from r "2.prems" obtain visited' where v': "vec_set visited vertexIndex True = Some visited'"
      by (auto simp: vec_set_def)
    from vec_set_length [OF v'] "2.prems" have lv: "length visited' = n" by simp
    from r sym obtain partner where p: "vec_at symIdx vertexIndex = Some partner"
      by (auto simp: vec_at_def)
    show ?thesis
    proof (cases "partner = vertexIndex")
      case True
      from r "2.prems" obtain sides' where s': "vec_set sides vertexIndex CENTER = Some sides'"
        by (auto simp: vec_set_def)
      from vec_set_length [OF s'] "2.prems" have ls: "length sides' = n" by simp
      from "2.hyps"(2) [OF vis False v' p True s' ok n sym lv ls q] vis False v' p True s'
      show ?thesis by simp
    next
      case ne: False
      from r "2.prems" obtain sides' where s': "vec_set sides vertexIndex sd = Some sides'"
        by (auto simp: vec_set_def)
      from vec_set_length [OF s'] "2.prems" have ls: "length sides' = n" by simp
      from r ok n obtain vd where vd: "vec_at (vertexData m) vertexIndex = Some vd"
        by (auto simp: vec_at_def meshVerticesOK_def)
      from vec_at_mem [OF vd] ok n
      have nb: "\<forall>i \<in> set (vConnectedVertices vd). 0 \<le> i \<and> i < int n"
        by (auto simp: meshVerticesOK_def)
      from pushNeighbours_defined [OF sym lv nb] obtain ns
        where ns: "pushNeighbours seam symIdx visited' vertexIndex (vConnectedVertices vd) = Some ns"
        by blast
      from pushNeighbours_subset [OF ns] nb q
      have q': "\<forall>v \<in> set (q @ ns). 0 \<le> v \<and> v < int n" by auto
      from "2.hyps"(3) [OF vis False v' p ne s' vd ns ok n sym lv ls q'] vis False v' p ne s' vd ns
      show ?thesis by simp
    qed
  qed
qed

lemma seedLeft_effect:
  "seedLeft left (q, sides) = Some (q', sides') \<Longrightarrow>
     q' = q @ left \<and> length sides' = length sides \<and>
     (\<forall>i \<in> set left. 0 \<le> i \<and> i < int (length sides)) \<and>
     (\<forall>v. vec_at sides' v = (if v \<in> set left then Some LEFT else vec_at sides v))"
proof (induction left arbitrary: q sides)
  case Nil
  then show ?case by simp
next
  case (Cons i left)
  from Cons.prems obtain sides1 where a: "vec_set sides i LEFT = Some sides1"
    and b: "seedLeft left (q @ [i], sides1) = Some (q', sides')"
    by (auto split: option.splits)
  from Cons.IH [OF b] vec_set_length [OF a] vec_set_in_range [OF a] vec_at_vec_set [OF a]
  show ?case by auto
qed

lemma seedLeft_defined:
  "\<forall>i \<in> set left. 0 \<le> i \<and> i < int (length sides) \<Longrightarrow> \<exists>r. seedLeft left (q, sides) = Some r"
proof (induction left arbitrary: q sides)
  case Nil
  show ?case by simp
next
  case (Cons i left)
  from Cons.prems obtain sides1 where a: "vec_set sides i LEFT = Some sides1"
    by (auto simp: vec_set_def)
  from Cons.prems vec_set_length [OF a] have "\<forall>i \<in> set left. 0 \<le> i \<and> i < int (length sides1)" by simp
  from Cons.IH [OF this] a show ?case by simp
qed

lemma seedRight_effect:
  "seedRight symIdx left (q, sides) = Some (q', sides') \<Longrightarrow>
     q' = q @ partnersOf symIdx left \<and> length sides' = length sides \<and>
     (\<forall>i \<in> set left. \<exists>p. vec_at symIdx i = Some p \<and> 0 \<le> p \<and> p < int (length sides)) \<and>
     (\<forall>v. vec_at sides' v = (if v \<in> set (partnersOf symIdx left) then Some RIGHT else vec_at sides v))"
proof (induction left arbitrary: q sides)
  case Nil
  then show ?case by (simp add: partnersOf_def)
next
  case (Cons i left)
  from Cons.prems obtain p sides1 where p: "vec_at symIdx i = Some p"
    and a: "vec_set sides p RIGHT = Some sides1"
    and b: "seedRight symIdx left (q @ [p], sides1) = Some (q', sides')"
    by (auto split: option.splits)
  from Cons.IH [OF b] vec_set_length [OF a] vec_set_in_range [OF a] vec_at_vec_set [OF a] p
  show ?case by (auto simp: partnersOf_def)
qed

lemma seedRight_defined:
  "\<forall>i \<in> set left. \<exists>p. vec_at symIdx i = Some p \<and> 0 \<le> p \<and> p < int (length sides) \<Longrightarrow>
     \<exists>r. seedRight symIdx left (q, sides) = Some r"
proof (induction left arbitrary: q sides)
  case Nil
  show ?case by simp
next
  case (Cons i left)
  from Cons.prems obtain p where p: "vec_at symIdx i = Some p" "0 \<le> p" "p < int (length sides)"
    by auto
  then obtain sides1 where a: "vec_set sides p RIGHT = Some sides1"
    by (auto simp: vec_set_def)
  from Cons.prems vec_set_length [OF a]
  have "\<forall>i \<in> set left. \<exists>p. vec_at symIdx i = Some p \<and> 0 \<le> p \<and> p < int (length sides1)" by simp
  from Cons.IH [OF this] a p show ?case by simp
qed

lemma floodSide_effect:
  "floodSide m symIdx sd seam q (visited, sides) = Some (visited', sides') \<Longrightarrow>
     length visited' = length visited \<and> length sides' = length sides \<and>
     (\<forall>v. vec_at visited v = Some True \<longrightarrow>
            vec_at visited' v = Some True \<and> vec_at sides' v = vec_at sides v) \<and>
     (\<forall>v. vec_at visited v = Some False \<and> vec_at visited' v = Some True \<longrightarrow>
            vec_at sides' v = Some (floodedSide symIdx sd v)) \<and>
     (\<forall>v. vec_at visited' v = Some False \<longrightarrow> vec_at sides' v = vec_at sides v) \<and>
     (\<forall>v \<in> set q. vec_at visited' v = Some True)"
proof (induction m symIdx sd seam q "(visited, sides)" arbitrary: visited sides rule: floodSide.induct)
  case (1 m symIdx sd seam)
  then show ?case by auto
next
  case (2 m symIdx sd seam vertexIndex q visited sides)
  from "2.prems" obtain vis where vis: "vec_at visited vertexIndex = Some vis"
    by (auto split: option.splits)
  show ?case
  proof (cases vis)
    case True
    with "2.prems" vis have run: "floodSide m symIdx sd seam q (visited, sides) = Some (visited', sides')"
      by simp
    from "2.hyps"(1) [OF vis True run] vis True show ?thesis by simp
  next
    case False
    with "2.prems" vis obtain visited1 partner
      where v1: "vec_set visited vertexIndex True = Some visited1"
        and p: "vec_at symIdx vertexIndex = Some partner"
      by (auto split: option.splits)
    note at1 = vec_at_vec_set [OF v1]
    note len1 = vec_set_length [OF v1]
    show ?thesis
    proof (cases "partner = vertexIndex")
      case True
      with "2.prems" vis False v1 p obtain sides1
        where s1: "vec_set sides vertexIndex CENTER = Some sides1"
          and run: "floodSide m symIdx sd seam q (visited1, sides1) = Some (visited', sides')"
        by (auto split: option.splits)
      note ats = vec_at_vec_set [OF s1]
      note IH = "2.hyps"(2) [OF vis False v1 p True s1 run]
      have fl: "floodedSide symIdx sd vertexIndex = CENTER" using p True by (simp add: floodedSide_def)
      from IH have a: "length visited' = length visited" "length sides' = length sides"
        using len1 vec_set_length [OF s1] by simp_all
      have b: "vec_at visited' v = Some True \<and> vec_at sides' v = vec_at sides v"
        if "vec_at visited v = Some True" for v
        using IH that at1 ats vis False by (cases "v = vertexIndex") auto
      have c: "vec_at sides' v = Some (floodedSide symIdx sd v)"
        if "vec_at visited v = Some False \<and> vec_at visited' v = Some True" for v
        using IH that at1 ats fl by (cases "v = vertexIndex") auto
      have d: "vec_at sides' v = vec_at sides v" if "vec_at visited' v = Some False" for v
        using IH that at1 ats by (cases "v = vertexIndex") auto
      have e: "\<forall>v \<in> set (vertexIndex # q). vec_at visited' v = Some True"
        using IH at1 by auto
      from a b c d e show ?thesis by blast
    next
      case ne: False
      with "2.prems" vis False v1 p obtain sides1 vd ns
        where s1: "vec_set sides vertexIndex sd = Some sides1"
          and vd: "vec_at (vertexData m) vertexIndex = Some vd"
          and ns: "pushNeighbours seam symIdx visited1 vertexIndex (vConnectedVertices vd) = Some ns"
          and run: "floodSide m symIdx sd seam (q @ ns) (visited1, sides1) = Some (visited', sides')"
        by (auto split: option.splits)
      note ats = vec_at_vec_set [OF s1]
      note IH = "2.hyps"(3) [OF vis False v1 p ne s1 vd ns run]
      have fl: "floodedSide symIdx sd vertexIndex = sd" using p ne by (simp add: floodedSide_def)
      from IH have a: "length visited' = length visited" "length sides' = length sides"
        using len1 vec_set_length [OF s1] by simp_all
      have b: "vec_at visited' v = Some True \<and> vec_at sides' v = vec_at sides v"
        if "vec_at visited v = Some True" for v
        using IH that at1 ats vis False by (cases "v = vertexIndex") auto
      have c: "vec_at sides' v = Some (floodedSide symIdx sd v)"
        if "vec_at visited v = Some False \<and> vec_at visited' v = Some True" for v
        using IH that at1 ats fl by (cases "v = vertexIndex") auto
      have d: "vec_at sides' v = vec_at sides v" if "vec_at visited' v = Some False" for v
        using IH that at1 ats by (cases "v = vertexIndex") auto
      have e: "\<forall>v \<in> set (vertexIndex # q). vec_at visited' v = Some True"
        using IH at1 by auto
      from a b c d e show ?thesis by blast
    qed
  qed
qed

lemma findVertexSides_run:
  assumes "findVertexSides m left s = Some s'"
  shows "\<exists>q1 sides1 visited2 sides2 q3 sides3 visited4 sides4.
           seedLeft left ([], replicate (numberOfVertices m) 0) = Some (q1, sides1) \<and>
           floodSide m (vertexSymmetryIndices s) LEFT True q1
             (replicate (numberOfVertices m) False, sides1) = Some (visited2, sides2) \<and>
           seedRight (vertexSymmetryIndices s) left ([], sides2) = Some (q3, sides3) \<and>
           floodSide m (vertexSymmetryIndices s) RIGHT False q3 (visited2, sides3) = Some (visited4, sides4) \<and>
           s' = s\<lparr>vertexSides := sides4\<rparr>"
  using assms by (auto simp: findVertexSides_def split: bind_splits prod.splits)

lemma vec_at_replicate: "vec_at (replicate n x) i = (if 0 \<le> i \<and> i < int n then Some x else None)"
  by (auto simp: vec_at_def nat_less_iff)

text \<open>The sides of a vertex at the end, by the floods that visited it.\<close>

lemma findVertexSides_cases:
  assumes run: "findVertexSides m left s = Some s'"
  shows "\<exists>visited2 visited4.
     length visited2 = numberOfVertices m \<and> length visited4 = numberOfVertices m \<and>
     length (vertexSides s') = numberOfVertices m \<and>
     (\<forall>i \<in> set left. vec_at visited2 i = Some True) \<and>
     (\<forall>i \<in> set left. \<exists>p. vec_at (vertexSymmetryIndices s) i = Some p \<and> 0 \<le> p \<and> p < int (numberOfVertices m)) \<and>
     (\<forall>v. vec_at visited2 v = Some True \<longrightarrow>
        vec_at (vertexSides s') v =
          Some (if v \<in> set (partnersOf (vertexSymmetryIndices s) left) then RIGHT
                else floodedSide (vertexSymmetryIndices s) LEFT v)) \<and>
     (\<forall>v. vec_at visited2 v = Some False \<and> vec_at visited4 v = Some True \<longrightarrow>
        vec_at (vertexSides s') v = Some (floodedSide (vertexSymmetryIndices s) RIGHT v)) \<and>
     (\<forall>v. vec_at visited4 v = Some False \<longrightarrow>
        vec_at (vertexSides s') v = Some CENTER \<and> v \<notin> set left \<and>
        v \<notin> set (partnersOf (vertexSymmetryIndices s) left)) \<and>
     (\<forall>v. vec_at visited2 v = Some True \<longrightarrow> vec_at visited4 v = Some True)"
proof -
  let ?n = "numberOfVertices m" and ?sym = "vertexSymmetryIndices s"
  from findVertexSides_run [OF run] obtain q1 sides1 visited2 sides2 q3 sides3 visited4 sides4
    where sl: "seedLeft left ([], replicate ?n 0) = Some (q1, sides1)"
      and f1: "floodSide m ?sym LEFT True q1 (replicate ?n False, sides1) = Some (visited2, sides2)"
      and sr: "seedRight ?sym left ([], sides2) = Some (q3, sides3)"
      and f2: "floodSide m ?sym RIGHT False q3 (visited2, sides3) = Some (visited4, sides4)"
      and s': "s' = s\<lparr>vertexSides := sides4\<rparr>"
    by blast
  note L = seedLeft_effect [OF sl] and F1 = floodSide_effect [OF f1]
    and R = seedRight_effect [OF sr] and F2 = floodSide_effect [OF f2]
  from L have q1: "q1 = left" and l1: "length sides1 = ?n"
    and s1: "\<And>v. vec_at sides1 v = (if v \<in> set left then Some LEFT else vec_at (replicate ?n 0) v)"
    by simp_all
  from F1 l1 have lv2: "length visited2 = ?n" and l2: "length sides2 = ?n" by simp_all
  from R l2 have q3: "q3 = partnersOf ?sym left" and l3: "length sides3 = ?n"
    and s3: "\<And>v. vec_at sides3 v = (if v \<in> set (partnersOf ?sym left) then Some RIGHT else vec_at sides2 v)"
    and pr: "\<forall>i \<in> set left. \<exists>p. vec_at ?sym i = Some p \<and> 0 \<le> p \<and> p < int ?n"
    by simp_all
  from F2 lv2 l3 have lv4: "length visited4 = ?n" and l4: "length sides4 = ?n" by simp_all
  have seeds: "\<forall>i \<in> set left. vec_at visited2 i = Some True" using F1 q1 by simp
  have parts: "\<forall>v \<in> set (partnersOf ?sym left). vec_at visited4 v = Some True" using F2 q3 by simp
  have mono: "\<forall>v. vec_at visited2 v = Some True \<longrightarrow> vec_at visited4 v = Some True" using F2 by simp
  have A: "vec_at sides4 v = Some (if v \<in> set (partnersOf ?sym left) then RIGHT else floodedSide ?sym LEFT v)"
    if v: "vec_at visited2 v = Some True" for v
  proof -
    from vec_at_in_range [OF v] lv2 have r: "0 \<le> v" "v < int ?n" by simp_all
    then have "vec_at (replicate ?n False) v = Some False" by (simp add: vec_at_replicate)
    with F1 v have "vec_at sides2 v = Some (floodedSide ?sym LEFT v)" by simp
    with s3 [of v] have "vec_at sides3 v = Some (if v \<in> set (partnersOf ?sym left) then RIGHT else floodedSide ?sym LEFT v)"
      by simp
    with F2 v show ?thesis by simp
  qed
  have B: "vec_at sides4 v = Some (floodedSide ?sym RIGHT v)"
    if "vec_at visited2 v = Some False \<and> vec_at visited4 v = Some True" for v
    using F2 that by simp
  have C: "vec_at sides4 v = Some CENTER \<and> v \<notin> set left \<and> v \<notin> set (partnersOf ?sym left)"
    if v: "vec_at visited4 v = Some False" for v
  proof -
    from vec_at_in_range [OF v] lv4 have r: "0 \<le> v" "v < int ?n" by simp_all
    from v parts have np: "v \<notin> set (partnersOf ?sym left)" by auto
    from r lv2 obtain b where b: "vec_at visited2 v = Some b" by (auto simp: vec_at_def)
    with mono v have v2: "vec_at visited2 v = Some False" by (cases b) auto
    with seeds have nl: "v \<notin> set left" by auto
    from F2 v have "vec_at sides4 v = vec_at sides3 v" by simp
    also from s3 [of v] np have "\<dots> = vec_at sides2 v" by simp
    also from F1 v2 have "\<dots> = vec_at sides1 v" by simp
    also from s1 [of v] nl r have "\<dots> = Some CENTER" by (simp add: vec_at_replicate)
    finally show ?thesis using nl np by simp
  qed
  from lv2 lv4 l4 seeds pr A B C mono s' show ?thesis
    by (intro exI [of _ visited2] exI [of _ visited4]) simp
qed

lemma partnersOf_mem:
  "p \<in> set (partnersOf symIdx left) =
     (\<exists>i \<in> set left. (case vec_at symIdx i of None \<Rightarrow> - 1 | Some p \<Rightarrow> p) = p)"
  by (auto simp: partnersOf_def)

lemma strip_sided: "findVertexSides stripAndQuad [0] stripResolved = Some stripSided"
  by code_simp

subsection \<open>The flood fills visit what they reach\<close>

lemma floodReach_not_blocked: "x \<in> floodReach m symIdx seam B q \<Longrightarrow> x \<notin> B"
  by (induction rule: floodReach.induct) auto

lemma floodReach_skip:
  assumes "v \<in> B"
  shows "floodReach m symIdx seam B (v # q) = floodReach m symIdx seam B q"
proof (intro equalityI subsetI)
  fix x assume "x \<in> floodReach m symIdx seam B (v # q)"
  then show "x \<in> floodReach m symIdx seam B q"
  proof (induction rule: floodReach.induct)
    case (start x)
    with assms show ?case by (auto intro: floodReach.start)
  next
    case (step u vd w)
    then show ?case by (auto intro: floodReach.step)
  qed
next
  fix x assume "x \<in> floodReach m symIdx seam B q"
  then show "x \<in> floodReach m symIdx seam B (v # q)"
  proof (induction rule: floodReach.induct)
    case (start x)
    then show ?case by (auto intro: floodReach.start)
  next
    case (step u vd w)
    then show ?case by (auto intro: floodReach.step)
  qed
qed

lemma floodReach_mono:
  assumes "x \<in> floodReach m symIdx seam (insert v B) q'"
    and "\<And>y. y \<in> set q' \<Longrightarrow> y \<notin> insert v B \<Longrightarrow> y \<in> floodReach m symIdx seam B q"
  shows "x \<in> floodReach m symIdx seam B q"
  using assms(1)
proof (induction rule: floodReach.induct)
  case (start x)
  with assms(2) show ?case by blast
next
  case (step u vd w)
  then show ?case by (auto intro: floodReach.step)
qed

lemma floodReach_centre:
  assumes nb: "v \<notin> B" and self: "vec_at symIdx v = Some v"
  shows "floodReach m symIdx seam B (v # q) = insert v (floodReach m symIdx seam (insert v B) q)"
proof (intro equalityI subsetI)
  fix x assume "x \<in> floodReach m symIdx seam B (v # q)"
  then show "x \<in> insert v (floodReach m symIdx seam (insert v B) q)"
  proof (induction rule: floodReach.induct)
    case (start x)
    then show ?case by (auto intro: floodReach.start)
  next
    case (step u vd w)
    show ?case
    proof (cases "w = v")
      case True
      then show ?thesis by simp
    next
      case False
      from step.hyps(2) self have "u \<noteq> v" by auto
      with step.IH have "u \<in> floodReach m symIdx seam (insert v B) q" by simp
      from floodReach.step [OF this step.hyps(2,3,4) _ step.hyps(6)] False step.hyps(5)
      show ?thesis by simp
    qed
  qed
next
  fix x assume "x \<in> insert v (floodReach m symIdx seam (insert v B) q)"
  then consider "x = v" | "x \<in> floodReach m symIdx seam (insert v B) q" by blast
  then show "x \<in> floodReach m symIdx seam B (v # q)"
  proof cases
    case 1
    with nb show ?thesis by (auto intro: floodReach.start)
  next
    case 2
    then show ?thesis
      by (rule floodReach_mono) (auto intro: floodReach.start)
  qed
qed

lemma floodReach_expand:
  assumes nb: "v \<notin> B" and ns: "vec_at symIdx v \<noteq> Some v"
    and vd: "vec_at (vertexData m) v = Some vd"
    and push: "set ns = {w \<in> set (vConnectedVertices vd). w \<notin> insert v B \<and> (seam \<longrightarrow> vec_at symIdx w \<noteq> Some v)}"
  shows "floodReach m symIdx seam B (v # q) = insert v (floodReach m symIdx seam (insert v B) (q @ ns))"
proof (intro equalityI subsetI)
  fix x assume "x \<in> floodReach m symIdx seam B (v # q)"
  then show "x \<in> insert v (floodReach m symIdx seam (insert v B) (q @ ns))"
  proof (induction rule: floodReach.induct)
    case (start x)
    then show ?case by (auto intro: floodReach.start)
  next
    case (step u ud w)
    show ?case
    proof (cases "w = v")
      case True
      then show ?thesis by simp
    next
      case wv: False
      show ?thesis
      proof (cases "u = v")
        case True
        with step.hyps(3) vd have "ud = vd" by simp
        with step.hyps wv True push have "w \<in> set ns" by auto
        with wv step.hyps(5) show ?thesis by (auto intro: floodReach.start)
      next
        case False
        with step.IH have "u \<in> floodReach m symIdx seam (insert v B) (q @ ns)" by simp
        from floodReach.step [OF this step.hyps(2,3,4) _ step.hyps(6)] wv step.hyps(5)
        show ?thesis by simp
      qed
    qed
  qed
next
  fix x assume "x \<in> insert v (floodReach m symIdx seam (insert v B) (q @ ns))"
  then consider "x = v" | "x \<in> floodReach m symIdx seam (insert v B) (q @ ns)" by blast
  then show "x \<in> floodReach m symIdx seam B (v # q)"
  proof cases
    case 1
    with nb show ?thesis by (auto intro: floodReach.start)
  next
    case 2
    have v: "v \<in> floodReach m symIdx seam B (v # q)" using nb by (auto intro: floodReach.start)
    from 2 show ?thesis
    proof (rule floodReach_mono)
      fix y assume y: "y \<in> set (q @ ns)" "y \<notin> insert v B"
      show "y \<in> floodReach m symIdx seam B (v # q)"
      proof (cases "y \<in> set q")
        case True
        with y show ?thesis by (auto intro: floodReach.start)
      next
        case False
        with y push have "y \<in> set (vConnectedVertices vd)" "y \<notin> B" "seam \<longrightarrow> vec_at symIdx y \<noteq> Some v"
          by auto
        from floodReach.step [OF v ns vd this] show ?thesis .
      qed
    qed
  qed
qed

lemma pushNeighbours_mem:
  "pushNeighbours seam symIdx visited vertexIndex ns = Some ps \<Longrightarrow>
     w \<in> set ps \<longleftrightarrow>
       w \<in> set ns \<and> vec_at visited w \<noteq> Some True \<and> (seam \<longrightarrow> vec_at symIdx w \<noteq> Some vertexIndex)"
proof (induction ns arbitrary: ps)
  case Nil
  then show ?case by simp
next
  case (Cons i ns)
  from Cons.prems obtain vis where vis: "vec_at visited i = Some vis" by (auto split: option.splits)
  show ?case
  proof (cases vis)
    case True
    with Cons.prems vis have "pushNeighbours seam symIdx visited vertexIndex ns = Some ps" by simp
    from Cons.IH [OF this] have
      "w \<in> set ps \<longleftrightarrow>
         w \<in> set ns \<and> vec_at visited w \<noteq> Some True \<and> (seam \<longrightarrow> vec_at symIdx w \<noteq> Some vertexIndex)" .
    moreover from vis True have "w = i \<Longrightarrow> vec_at visited w = Some True" by simp
    ultimately show ?thesis by auto
  next
    case False
    then have nv: "vec_at visited i \<noteq> Some True" using vis by simp
    show ?thesis
    proof (cases seam)
      case sm: True
      with Cons.prems vis False obtain partner ps0
        where p: "vec_at symIdx i = Some partner"
          and r: "pushNeighbours seam symIdx visited vertexIndex ns = Some ps0"
          and ps: "ps = (if partner \<noteq> vertexIndex then i # ps0 else ps0)"
        by (auto split: option.splits)
      note IH = Cons.IH [OF r]
      show ?thesis
      proof (cases "w = i")
        case wi: True
        show ?thesis
        proof (cases "partner = vertexIndex")
          case True
          with ps have "ps = ps0" by simp
          with IH wi p True sm show ?thesis by simp
        next
          case False
          with ps have "ps = i # ps0" by simp
          with wi p False nv sm show ?thesis by simp
        qed
      next
        case False
        with ps have "w \<in> set ps \<longleftrightarrow> w \<in> set ps0" by simp
        with IH False show ?thesis by simp
      qed
    next
      case nseam: False
      with Cons.prems vis False obtain ps0
        where r: "pushNeighbours seam symIdx visited vertexIndex ns = Some ps0"
          and ps: "ps = i # ps0"
        by (auto split: option.splits)
      note IH = Cons.IH [OF r]
      show ?thesis
      proof (cases "w = i")
        case True
        with ps nv nseam show ?thesis by simp
      next
        case False
        with ps IH show ?thesis by simp
      qed
    qed
  qed
qed

lemma pushNeighbours_set:
  assumes "pushNeighbours seam symIdx visited vertexIndex ns = Some ps"
  shows "set ps = {w \<in> set ns. vec_at visited w \<noteq> Some True \<and> (seam \<longrightarrow> vec_at symIdx w \<noteq> Some vertexIndex)}"
  using pushNeighbours_mem [OF assms] by blast

lemma visited_insert:
  assumes "vec_set visited v True = Some visited1"
  shows "{x. vec_at visited1 x = Some True} = insert v {x. vec_at visited x = Some True}"
proof -
  have "vec_at visited1 x = Some True \<longleftrightarrow> x = v \<or> vec_at visited x = Some True" for x
    using vec_at_vec_set [OF assms, of x] by simp
  then show ?thesis by blast
qed

text \<open>
  A flood fill visits exactly the vertices that it reaches from its queue, past the
  vertices visited before.
\<close>

lemma floodSide_visits:
  "floodSide m symIdx sd seam q (visited, sides) = Some (visited', sides') \<Longrightarrow>
     {v. vec_at visited' v = Some True} =
       {v. vec_at visited v = Some True} \<union>
       floodReach m symIdx seam {v. vec_at visited v = Some True} q"
proof (induction m symIdx sd seam q "(visited, sides)" arbitrary: visited sides rule: floodSide.induct)
  case (1 m symIdx sd seam)
  have "floodReach m symIdx seam {v. vec_at visited v = Some True} [] = {}"
    using floodReach.induct [of _ m symIdx seam "{v. vec_at visited v = Some True}" "[]" "\<lambda>x. False"]
    by auto
  with 1 show ?case by simp
next
  case (2 m symIdx sd seam vertexIndex q visited sides)
  let ?B = "{v. vec_at visited v = Some True}"
  from "2.prems" obtain vis where vis: "vec_at visited vertexIndex = Some vis"
    by (auto split: option.splits)
  show ?case
  proof (cases vis)
    case True
    with "2.prems" vis have run: "floodSide m symIdx sd seam q (visited, sides) = Some (visited', sides')"
      by simp
    from vis True have "vertexIndex \<in> ?B" by simp
    note S = floodReach_skip [OF this, of m symIdx seam q]
    show ?thesis unfolding "2.hyps"(1) [OF vis True run] S by (rule refl)
  next
    case False
    with "2.prems" vis obtain visited1 partner
      where v1: "vec_set visited vertexIndex True = Some visited1"
        and p: "vec_at symIdx vertexIndex = Some partner"
      by (auto split: option.splits)
    note B1 = visited_insert [OF v1]
    from vis False have nb: "vertexIndex \<notin> ?B" by simp
    show ?thesis
    proof (cases "partner = vertexIndex")
      case True
      with "2.prems" vis False v1 p obtain sides1
        where s1: "vec_set sides vertexIndex CENTER = Some sides1"
          and run: "floodSide m symIdx sd seam q (visited1, sides1) = Some (visited', sides')"
        by (auto split: option.splits)
      from p True have self: "vec_at symIdx vertexIndex = Some vertexIndex" by simp
      note IH = "2.hyps"(2) [OF vis False v1 p True s1 run]
      note C = floodReach_centre [OF nb self, of m seam q]
      show ?thesis unfolding IH B1 C by blast
    next
      case ne: False
      with "2.prems" vis False v1 p obtain sides1 vd ns
        where s1: "vec_set sides vertexIndex sd = Some sides1"
          and vd: "vec_at (vertexData m) vertexIndex = Some vd"
          and ns: "pushNeighbours seam symIdx visited1 vertexIndex (vConnectedVertices vd) = Some ns"
          and run: "floodSide m symIdx sd seam (q @ ns) (visited1, sides1) = Some (visited', sides')"
        by (auto split: option.splits)
      from p ne have nself: "vec_at symIdx vertexIndex \<noteq> Some vertexIndex" by simp
      have "w \<notin> insert vertexIndex ?B \<longleftrightarrow> vec_at visited1 w \<noteq> Some True" for w
        using B1 by blast
      with pushNeighbours_set [OF ns]
      have push: "set ns = {w \<in> set (vConnectedVertices vd). w \<notin> insert vertexIndex ?B \<and>
                      (seam \<longrightarrow> vec_at symIdx w \<noteq> Some vertexIndex)}"
        by simp
      note IH = "2.hyps"(3) [OF vis False v1 p ne s1 vd ns run]
      note E = floodReach_expand [OF nb nself vd push, of q]
      show ?thesis unfolding IH B1 E by blast
    qed
  qed
qed


lemma replicate_none_visited: "{v. vec_at (replicate n False) v = Some True} = {}"
  by (simp add: vec_at_replicate)

lemma vec_at_flag:
  assumes "0 \<le> v" and "v < int (length visited)"
  shows "vec_at visited v = Some (v \<in> {x. vec_at visited x = Some True})"
proof -
  from assms obtain b where b: "vec_at visited v = Some b" by (auto simp: vec_at_def)
  then show ?thesis by (cases b) simp_all
qed

text \<open>The side of every vertex at the end, by the fills that reach it.\<close>

lemma findVertexSides_sides:
  assumes run: "findVertexSides m left s = Some s'"
  shows "length (vertexSides s') = numberOfVertices m \<and>
     (\<forall>v \<in> leftFlood m (vertexSymmetryIndices s) left \<union> rightFlood m (vertexSymmetryIndices s) left \<union>
             set (partnersOf (vertexSymmetryIndices s) left).
        0 \<le> v \<and> v < int (numberOfVertices m)) \<and>
     (\<forall>v. 0 \<le> v \<and> v < int (numberOfVertices m) \<longrightarrow>
        vec_at (vertexSides s') v =
          Some (if v \<in> leftFlood m (vertexSymmetryIndices s) left
                then (if v \<in> set (partnersOf (vertexSymmetryIndices s) left) then RIGHT
                      else floodedSide (vertexSymmetryIndices s) LEFT v)
                else if v \<in> rightFlood m (vertexSymmetryIndices s) left
                then floodedSide (vertexSymmetryIndices s) RIGHT v
                else CENTER))"
proof -
  let ?n = "numberOfVertices m" and ?sym = "vertexSymmetryIndices s"
  let ?L = "leftFlood m ?sym left" and ?R = "rightFlood m ?sym left"
  let ?P = "set (partnersOf ?sym left)"
  from findVertexSides_run [OF run] obtain q1 sides1 visited2 sides2 q3 sides3 visited4 sides4
    where sl: "seedLeft left ([], replicate ?n 0) = Some (q1, sides1)"
      and f1: "floodSide m ?sym LEFT True q1 (replicate ?n False, sides1) = Some (visited2, sides2)"
      and sr: "seedRight ?sym left ([], sides2) = Some (q3, sides3)"
      and f2: "floodSide m ?sym RIGHT False q3 (visited2, sides3) = Some (visited4, sides4)"
      and s': "s' = s\<lparr>vertexSides := sides4\<rparr>"
    by blast
  note L = seedLeft_effect [OF sl] and F1 = floodSide_effect [OF f1]
    and R = seedRight_effect [OF sr] and F2 = floodSide_effect [OF f2]
  from L have q1: "q1 = left" and l1: "length sides1 = ?n"
    and s1: "\<And>v. vec_at sides1 v = (if v \<in> set left then Some LEFT else vec_at (replicate ?n 0) v)"
    by simp_all
  from F1 l1 have lv2: "length visited2 = ?n" and l2: "length sides2 = ?n" by simp_all
  from R l2 have q3: "q3 = partnersOf ?sym left" and l3: "length sides3 = ?n"
    and s3: "\<And>v. vec_at sides3 v = (if v \<in> ?P then Some RIGHT else vec_at sides2 v)"
    and pr: "\<forall>i \<in> set left. \<exists>p. vec_at ?sym i = Some p \<and> 0 \<le> p \<and> p < int ?n"
    by simp_all
  from F2 lv2 l3 have lv4: "length visited4 = ?n" and l4: "length sides4 = ?n" by simp_all
  have V2: "{v. vec_at visited2 v = Some True} = ?L"
    using floodSide_visits [OF f1] q1 by (simp add: replicate_none_visited leftFlood_def)
  have V4: "{v. vec_at visited4 v = Some True} = ?L \<union> ?R"
    using floodSide_visits [OF f2] q3 V2 by (simp add: rightFlood_def)
  have disj: "?L \<inter> ?R = {}"
    using floodReach_not_blocked [of _ m ?sym False ?L "partnersOf ?sym left"]
    by (auto simp: rightFlood_def)
  have inP: "0 \<le> v \<and> v < int ?n" if "v \<in> ?P" for v
    using that pr by (auto simp: partnersOf_def)
  have inL: "0 \<le> v \<and> v < int ?n" if "v \<in> ?L" for v
  proof -
    from that V2 have "vec_at visited2 v = Some True" by blast
    from vec_at_in_range [OF this] lv2 show ?thesis by simp
  qed
  have inR: "0 \<le> v \<and> v < int ?n" if "v \<in> ?R" for v
  proof -
    from that V4 have "vec_at visited4 v = Some True" by blast
    from vec_at_in_range [OF this] lv4 show ?thesis by simp
  qed
  have side: "vec_at sides4 v =
     Some (if v \<in> ?L then (if v \<in> ?P then RIGHT else floodedSide ?sym LEFT v)
           else if v \<in> ?R then floodedSide ?sym RIGHT v else CENTER)"
    if r: "0 \<le> v \<and> v < int ?n" for v
  proof -
    from r lv2 vec_at_flag [of v visited2] V2 have b2: "vec_at visited2 v = Some (v \<in> ?L)" by simp
    from r lv4 vec_at_flag [of v visited4] V4 have b4: "vec_at visited4 v = Some (v \<in> ?L \<or> v \<in> ?R)" by simp
    from r have v0: "vec_at (replicate ?n False) v = Some False" by (simp add: vec_at_replicate)
    show ?thesis
    proof (cases "v \<in> ?L")
      case True
      with b2 have v2: "vec_at visited2 v = Some True" by simp
      with F1 v0 have "vec_at sides2 v = Some (floodedSide ?sym LEFT v)" by simp
      with s3 [of v] have "vec_at sides3 v = Some (if v \<in> ?P then RIGHT else floodedSide ?sym LEFT v)"
        by simp
      with F2 v2 True show ?thesis by simp
    next
      case nl: False
      with b2 have v2: "vec_at visited2 v = Some False" by simp
      show ?thesis
      proof (cases "v \<in> ?R")
        case True
        with b4 have "vec_at visited4 v = Some True" by simp
        with F2 v2 have "vec_at sides4 v = Some (floodedSide ?sym RIGHT v)" by simp
        with nl True show ?thesis by simp
      next
        case False
        with nl b4 have v4: "vec_at visited4 v = Some False" by simp
        have np: "v \<notin> ?P"
        proof
          assume "v \<in> ?P"
          with nl have "v \<in> ?R" by (auto simp: rightFlood_def intro: floodReach.start)
          with False show False by simp
        qed
        have nleft: "v \<notin> set left"
        proof
          assume "v \<in> set left"
          then have "v \<in> ?L" by (auto simp: leftFlood_def intro: floodReach.start)
          with nl show False by simp
        qed
        from F2 v4 have "vec_at sides4 v = vec_at sides3 v" by simp
        also from s3 [of v] np have "\<dots> = vec_at sides2 v" by simp
        also from F1 v2 have "\<dots> = vec_at sides1 v" by simp
        also from s1 [of v] nleft r have "\<dots> = Some CENTER" by (simp add: vec_at_replicate)
        finally show ?thesis using nl False by simp
      qed
    qed
  qed
  from l4 s' inP inL inR side show ?thesis by auto
qed

text \<open>
  What \<^verbatim>\<open>findVertexSides\<close> does guarantee for a self-symmetric vertex: it ends CENTER
  unless it is the partner of a left seed.
\<close>

lemma self_symmetric_centre_unless_seed_partner:
  assumes run: "findVertexSides m left s = Some s'"
    and v: "vec_at (vertexSymmetryIndices s) v = Some v"
    and r: "v < int (numberOfVertices m)"
    and np: "\<forall>j \<in> set left. vec_at (vertexSymmetryIndices s) j \<noteq> Some v"
  shows "vec_at (vertexSides s') v = Some CENTER"
proof -
  let ?n = "numberOfVertices m" and ?sym = "vertexSymmetryIndices s"
  from findVertexSides_cases [OF run] obtain visited2 visited4
    where lv2: "length visited2 = ?n" and lv4: "length visited4 = ?n"
      and pr: "\<forall>i \<in> set left. \<exists>p. vec_at ?sym i = Some p \<and> 0 \<le> p \<and> p < int ?n"
      and A: "\<And>v. vec_at visited2 v = Some True \<Longrightarrow>
                vec_at (vertexSides s') v =
                  Some (if v \<in> set (partnersOf ?sym left) then RIGHT else floodedSide ?sym LEFT v)"
      and B: "\<And>v. vec_at visited2 v = Some False \<and> vec_at visited4 v = Some True \<Longrightarrow>
                vec_at (vertexSides s') v = Some (floodedSide ?sym RIGHT v)"
      and C: "\<And>v. vec_at visited4 v = Some False \<Longrightarrow>
                vec_at (vertexSides s') v = Some CENTER \<and> v \<notin> set left \<and> v \<notin> set (partnersOf ?sym left)"
    by blast
  have vp: "v \<notin> set (partnersOf ?sym left)"
  proof
    assume "v \<in> set (partnersOf ?sym left)"
    then obtain j where j: "j \<in> set left" "(case vec_at ?sym j of None \<Rightarrow> - 1 | Some p \<Rightarrow> p) = v"
      by (auto simp: partnersOf_mem)
    from pr j(1) obtain pj where "vec_at ?sym j = Some pj" by blast
    with j np show False by auto
  qed
  from vec_at_in_range [OF v] r have r': "0 \<le> v" "v < int ?n" by simp_all
  with lv2 obtain b2 where b2: "vec_at visited2 v = Some b2" by (auto simp: vec_at_def)
  from r' lv4 obtain b4 where b4: "vec_at visited4 v = Some b4" by (auto simp: vec_at_def)
  show ?thesis
  proof (cases b2)
    case True
    with A [of v] b2 vp v show ?thesis by (simp add: floodedSide_def)
  next
    case False
    show ?thesis
    proof (cases b4)
      case True
      with B [of v] b2 False b4 v show ?thesis by (simp add: floodedSide_def)
    next
      case False
      with C [of v] b4 show ?thesis by simp
    qed
  qed
qed

section \<open>Sides of partner vertices\<close>

text \<open>
  The pair of a left seed: when the partner \<open>p\<close> of a left seed \<open>i\<close> is another
  vertex, \<open>p\<close> is not its own partner and \<open>i\<close> is not the partner of a left seed,
  \<^verbatim>\<open>findVertexSides\<close> leaves \<open>i\<close> LEFT and \<open>p\<close> RIGHT.
\<close>

lemma seed_pair_opposite_sides:
  assumes run: "findVertexSides m left s = Some s'"
    and i: "i \<in> set left"
    and p: "vec_at (vertexSymmetryIndices s) i = Some p"
    and ne: "p \<noteq> i"
    and pp: "vec_at (vertexSymmetryIndices s) p \<noteq> Some p"
    and np: "\<forall>j \<in> set left. vec_at (vertexSymmetryIndices s) j \<noteq> Some i"
  shows "vec_at (vertexSides s') i = Some LEFT \<and> vec_at (vertexSides s') p = Some RIGHT"
proof -
  let ?n = "numberOfVertices m" and ?sym = "vertexSymmetryIndices s"
  from findVertexSides_cases [OF run] obtain visited2 visited4
    where lv2: "length visited2 = ?n" and lv4: "length visited4 = ?n"
      and seeds: "\<forall>i \<in> set left. vec_at visited2 i = Some True"
      and pr: "\<forall>i \<in> set left. \<exists>p. vec_at ?sym i = Some p \<and> 0 \<le> p \<and> p < int ?n"
      and A: "\<And>v. vec_at visited2 v = Some True \<Longrightarrow>
                vec_at (vertexSides s') v =
                  Some (if v \<in> set (partnersOf ?sym left) then RIGHT else floodedSide ?sym LEFT v)"
      and B: "\<And>v. vec_at visited2 v = Some False \<and> vec_at visited4 v = Some True \<Longrightarrow>
                vec_at (vertexSides s') v = Some (floodedSide ?sym RIGHT v)"
      and C: "\<And>v. vec_at visited4 v = Some False \<Longrightarrow>
                vec_at (vertexSides s') v = Some CENTER \<and> v \<notin> set left \<and> v \<notin> set (partnersOf ?sym left)"
    by blast
  have ip: "i \<notin> set (partnersOf ?sym left)"
  proof
    assume "i \<in> set (partnersOf ?sym left)"
    then obtain j where j: "j \<in> set left" "(case vec_at ?sym j of None \<Rightarrow> - 1 | Some p \<Rightarrow> p) = i"
      by (auto simp: partnersOf_mem)
    from pr j(1) obtain pj where "vec_at ?sym j = Some pj" by blast
    with j np show False by auto
  qed
  from A [of i] seeds i ip p ne have L: "vec_at (vertexSides s') i = Some LEFT"
    by (simp add: floodedSide_def)
  from i p have pin: "p \<in> set (partnersOf ?sym left)" by (force simp: partnersOf_mem)
  from pr i p have r: "0 \<le> p" "p < int ?n" by auto
  with lv2 obtain b2 where b2: "vec_at visited2 p = Some b2" by (auto simp: vec_at_def)
  from r lv4 obtain b4 where b4: "vec_at visited4 p = Some b4" by (auto simp: vec_at_def)
  have R: "vec_at (vertexSides s') p = Some RIGHT"
  proof (cases b2)
    case True
    with A [of p] b2 pin show ?thesis by simp
  next
    case False
    from C [of p] pin b4 have "b4" by (cases b4) auto
    with B [of p] b2 False b4 pp show ?thesis by (simp add: floodedSide_def)
  qed
  from L R show ?thesis by simp
qed

text \<open>
  On the strip with vertex 0 as the left seed, the left fill reaches the left half and
  the two centre vertices 2 and 7, the right fill the right half; the second shell is
  not reached.
\<close>

lemma strip_partners: "partnersOf (vertexSymmetryIndices stripResolved) [0] = [4]"
  by code_simp

lemma below_fourteen:
  "0 \<le> v \<and> v < 14 \<longleftrightarrow> v \<in> {0, 1, 2, 3, 4, 5, 6, 7, 8, 9, 10, 11, 12, 13 :: int}"
proof -
  have "0 \<le> v \<and> v < 14 \<longleftrightarrow>
        v = 0 \<or> v = 1 \<or> v = 2 \<or> v = 3 \<or> v = 4 \<or> v = 5 \<or> v = 6 \<or> v = 7 \<or> v = 8 \<or> v = 9 \<or>
        v = 10 \<or> v = 11 \<or> v = 12 \<or> v = 13"
    by presburger
  then show ?thesis by simp
qed

lemma strip_left_flags:
  "{v. vec_at [True, True, True, False, False, True, True, True, False, False, False, False, False, False] v = Some True}
     = {0, 1, 2, 5, 6, 7}"
proof -
  have "vec_at [True, True, True, False, False, True, True, True, False, False, False, False, False, False] v = Some True
        \<longleftrightarrow> v \<in> {0, 1, 2, 5, 6, 7}" for v
  proof (cases "0 \<le> v \<and> v < 14")
    case True
    then have "v \<in> {0, 1, 2, 3, 4, 5, 6, 7, 8, 9, 10, 11, 12, 13}" by (simp only: below_fourteen)
    then show ?thesis by (auto simp: vec_at_def)
  next
    case False
    then show ?thesis by (auto simp: vec_at_def)
  qed
  then show ?thesis by blast
qed

lemma strip_all_flags:
  "{v. vec_at [True, True, True, True, True, True, True, True, True, True, False, False, False, False] v = Some True}
     = {0, 1, 2, 3, 4, 5, 6, 7, 8, 9}"
proof -
  have "vec_at [True, True, True, True, True, True, True, True, True, True, False, False, False, False] v = Some True
        \<longleftrightarrow> v \<in> {0, 1, 2, 3, 4, 5, 6, 7, 8, 9}" for v
  proof (cases "0 \<le> v \<and> v < 14")
    case True
    then have "v \<in> {0, 1, 2, 3, 4, 5, 6, 7, 8, 9, 10, 11, 12, 13}" by (simp only: below_fourteen)
    then show ?thesis by (auto simp: vec_at_def)
  next
    case False
    then show ?thesis by (auto simp: vec_at_def)
  qed
  then show ?thesis by blast
qed

lemma strip_floods:
  "leftFlood stripAndQuad (vertexSymmetryIndices stripResolved) [0] = {0, 1, 2, 5, 6, 7} \<and>
   rightFlood stripAndQuad (vertexSymmetryIndices stripResolved) [0] = {3, 4, 8, 9}"
proof -
  let ?sym = "vertexSymmetryIndices stripResolved"
  let ?v2 = "[True, True, True, False, False, True, True, True, False, False, False, False, False, False]"
  let ?v4 = "[True, True, True, True, True, True, True, True, True, True, False, False, False, False]"
  have f1: "floodSide stripAndQuad ?sym LEFT True [0]
              (replicate 14 False, [1, 0, 0, 0, 0, 0, 0, 0, 0, 0, 0, 0, 0, 0]) =
            Some (?v2, [1, 1, 0, 0, 0, 1, 1, 0, 0, 0, 0, 0, 0, 0])"
    by code_simp
  have f2: "floodSide stripAndQuad ?sym RIGHT False [4]
              (?v2, [1, 1, 0, 0, - 1, 1, 1, 0, 0, 0, 0, 0, 0, 0]) =
            Some (?v4, [1, 1, 0, - 1, - 1, 1, 1, 0, - 1, - 1, 0, 0, 0, 0])"
    by code_simp
  from floodSide_visits [OF f1]
  have L: "leftFlood stripAndQuad ?sym [0] = {0, 1, 2, 5, 6, 7}"
    by (simp only: replicate_none_visited strip_left_flags leftFlood_def Un_empty_left)
  from floodSide_visits [OF f2]
  have eq: "{0, 1, 2, 3, 4, 5, 6, 7, 8, 9} = {0, 1, 2, 5, 6, 7} \<union> rightFlood stripAndQuad ?sym [0]"
    by (simp only: strip_left_flags strip_all_flags rightFlood_def L strip_partners)
  have dj: "x \<in> rightFlood stripAndQuad ?sym [0] \<Longrightarrow> x \<notin> {0, 1, 2, 5, 6, 7}" for x
  proof -
    assume "x \<in> rightFlood stripAndQuad ?sym [0]"
    then have "x \<notin> leftFlood stripAndQuad ?sym [0]"
      unfolding rightFlood_def by (rule floodReach_not_blocked)
    with L show ?thesis by simp
  qed
  have "rightFlood stripAndQuad ?sym [0] =
          ({0, 1, 2, 5, 6, 7} \<union> rightFlood stripAndQuad ?sym [0]) - {0, 1, 2, 5, 6, 7}"
    using dj by blast
  also have "\<dots> = {0, 1, 2, 3, 4, 5, 6, 7, 8, 9} - {0, 1, 2, 5, 6, 7}"
    by (simp only: eq [symmetric])
  also have "\<dots> = {3, 4, 8, 9}" by auto
  finally have "rightFlood stripAndQuad ?sym [0] = {3, 4, 8, 9}" .
  with L show ?thesis by simp
qed

text \<open>
  C3, as stated, fails: without a left vertex (\<^verbatim>\<open>leftVertexIndex == -1\<close>) no flood fill
  starts and every vertex stays CENTER, also the resolved vertex 0 of the two quads and
  its partner 2.
\<close>

theorem no_left_seed_counterexample:
  "findSymmetricalVertices 8 twoQuads (twoSeed\<lparr>leftVertexIndex := - 1\<rparr>) (reset twoQuads) =
     Returned (Some (twoResolved\<lparr>leftSideVertexIndices := []\<rparr>)) \<and>
   findVertexSides twoQuads [] (twoResolved\<lparr>leftSideVertexIndices := []\<rparr>) =
     Some (twoResolved\<lparr>leftSideVertexIndices := [], vertexSides := [0, 0, 0, 0, 0, 0]\<rparr>) \<and>
   vec_at (examinedVertices twoResolved) 0 = Some True \<and>
   vec_at (vertexSymmetryIndices twoResolved) 0 = Some 2"
  by code_simp

text \<open>
  C3, amended: the two vertices of a pair are on opposite sides exactly when the flood
  fills reach them so.  Let \<open>p\<close> be the partner of \<open>v\<close>, another vertex, with \<open>v\<close> the
  partner of \<open>p\<close>.  After \<^verbatim>\<open>findVertexSides\<close>, \<open>v\<close> is LEFT and \<open>p\<close> is RIGHT if and
  only if the left fill reaches \<open>v\<close>, \<open>v\<close> is not the partner of a left seed, and \<open>p\<close>
  is the partner of a left seed or is reached by the right fill (which never reaches a
  vertex of the left fill); and both are CENTER if and only if neither fill reaches
  either of them.  (The same holds with \<open>v\<close> and \<open>p\<close> exchanged.)  The left fill reaches the left seeds and, from a reached vertex
  that is not its own partner, every connected vertex whose partner is not that
  vertex; the right fill starts from the partners of the left seeds and skips the
  vertices of the left fill.
\<close>

theorem partners_on_opposite_sides:
  assumes run: "findVertexSides m left s = Some s'"
    and vp: "vec_at (vertexSymmetryIndices s) v = Some p"
    and pv: "vec_at (vertexSymmetryIndices s) p = Some v"
    and ne: "p \<noteq> v"
  shows "((vec_at (vertexSides s') v = Some LEFT \<and> vec_at (vertexSides s') p = Some RIGHT) =
          (v \<in> leftFlood m (vertexSymmetryIndices s) left \<and>
           v \<notin> set (partnersOf (vertexSymmetryIndices s) left) \<and>
           (p \<in> set (partnersOf (vertexSymmetryIndices s) left) \<or>
            p \<in> rightFlood m (vertexSymmetryIndices s) left))) \<and>
         ((vec_at (vertexSides s') v = Some CENTER \<and> vec_at (vertexSides s') p = Some CENTER) =
          (0 \<le> v \<and> v < int (numberOfVertices m) \<and> 0 \<le> p \<and> p < int (numberOfVertices m) \<and>
           v \<notin> leftFlood m (vertexSymmetryIndices s) left \<and>
           v \<notin> rightFlood m (vertexSymmetryIndices s) left \<and>
           p \<notin> leftFlood m (vertexSymmetryIndices s) left \<and>
           p \<notin> rightFlood m (vertexSymmetryIndices s) left))"
proof -
  let ?n = "numberOfVertices m" and ?sym = "vertexSymmetryIndices s"
  let ?L = "leftFlood m ?sym left" and ?R = "rightFlood m ?sym left"
  let ?P = "set (partnersOf ?sym left)"
  from findVertexSides_sides [OF run]
  have len: "length (vertexSides s') = ?n"
    and rng: "\<And>x. x \<in> ?L \<union> ?R \<union> ?P \<Longrightarrow> 0 \<le> x \<and> x < int ?n"
    and side: "\<And>x. 0 \<le> x \<and> x < int ?n \<Longrightarrow>
        vec_at (vertexSides s') x =
          Some (if x \<in> ?L then (if x \<in> ?P then RIGHT else floodedSide ?sym LEFT x)
                else if x \<in> ?R then floodedSide ?sym RIGHT x else CENTER)"
    by blast+
  have out: "vec_at (vertexSides s') x = None" if "\<not> (0 \<le> x \<and> x < int ?n)" for x
    using that len by (auto simp: vec_at_def)
  from vp ne have fv: "floodedSide ?sym sd v = sd" for sd by (simp add: floodedSide_def)
  from pv ne have fp: "floodedSide ?sym sd p = sd" for sd by (auto simp: floodedSide_def)
  have PR: "x \<in> ?R" if "x \<in> ?P" "x \<notin> ?L" for x
    using that by (auto simp: rightFlood_def intro: floodReach.start)
  have LR: "x \<notin> ?L" if "x \<in> ?R" for x
    using that floodReach_not_blocked [of x m ?sym False ?L "partnersOf ?sym left"]
    by (simp add: rightFlood_def)
  have vL: "vec_at (vertexSides s') v = Some LEFT \<longleftrightarrow> v \<in> ?L \<and> v \<notin> ?P"
  proof (cases "0 \<le> v \<and> v < int ?n")
    case True
    from side [OF True] fv show ?thesis by auto
  next
    case False
    with out [OF False] rng [of v] show ?thesis by auto
  qed
  have pR: "vec_at (vertexSides s') p = Some RIGHT \<longleftrightarrow> p \<in> ?P \<or> p \<in> ?R"
  proof (cases "0 \<le> p \<and> p < int ?n")
    case True
    from side [OF True] fp PR [of p] LR [of p] show ?thesis by auto
  next
    case False
    with out [OF False] rng [of p] show ?thesis by auto
  qed
  have vC: "vec_at (vertexSides s') x = Some CENTER \<longleftrightarrow>
              0 \<le> x \<and> x < int ?n \<and> x \<notin> ?L \<and> x \<notin> ?R"
    if "\<And>sd. floodedSide ?sym sd x = sd" for x
  proof (cases "0 \<le> x \<and> x < int ?n")
    case True
    from side [OF True] True that PR [of x] LR [of x] show ?thesis by auto
  next
    case False
    with out [OF False] show ?thesis by auto
  qed
  from vL pR vC [of v, OF fv] vC [of p, OF fp] show ?thesis by blast
qed

theorem partners_on_opposite_sides_witness:
  "findVertexSides stripAndQuad [0] stripResolved = Some stripSided \<and>
   vec_at (vertexSymmetryIndices stripResolved) 1 = Some 3 \<and>
   vec_at (vertexSymmetryIndices stripResolved) 3 = Some 1 \<and>
   vec_at (vertexSides stripSided) 1 = Some LEFT \<and>
   vec_at (vertexSides stripSided) 3 = Some RIGHT \<and>
   1 \<in> leftFlood stripAndQuad (vertexSymmetryIndices stripResolved) [0] \<and>
   3 \<in> rightFlood stripAndQuad (vertexSymmetryIndices stripResolved) [0] \<and>
   leftFlood stripAndQuad (vertexSymmetryIndices stripResolved) [0] = {0, 1, 2, 5, 6, 7} \<and>
   rightFlood stripAndQuad (vertexSymmetryIndices stripResolved) [0] = {3, 4, 8, 9}"
proof -
  have vp: "vec_at (vertexSymmetryIndices stripResolved) 1 = Some 3" by code_simp
  have pv: "vec_at (vertexSymmetryIndices stripResolved) 3 = Some 1" by code_simp
  have ne: "(3::int) \<noteq> 1" by simp
  have l: "vec_at (vertexSides stripSided) 1 = Some LEFT" by code_simp
  have r: "vec_at (vertexSides stripSided) 3 = Some RIGHT" by code_simp
  from partners_on_opposite_sides [OF strip_sided vp pv ne] l r strip_partners
  have "1 \<in> leftFlood stripAndQuad (vertexSymmetryIndices stripResolved) [0]"
    "3 \<in> rightFlood stripAndQuad (vertexSymmetryIndices stripResolved) [0]"
    by simp_all
  with strip_sided vp pv l r strip_floods show ?thesis by simp
qed

section \<open>Array accesses of the side classifier\<close>

text \<open>
  C10: \<^verbatim>\<open>findVertexSides\<close> uses the partner of each left seed as an index into
  \<open>vertexSides\<close> without a test for \<open>-1\<close>.  On a topology whose vertex adjacency is
  well formed, with a partner table of \<open>numberOfVertices\<close> entries and left seeds that
  are vertex indices, every access is in range (the function returns a state) exactly
  when the partner of every left seed is a vertex index; a left seed whose partner is
  the sentinel \<open>-1\<close> makes it index \<open>vertexSides\<close> at \<open>-1\<close>.
\<close>

theorem findVertexSides_in_bounds:
  assumes ok: "meshVerticesOK m"
    and len: "length (vertexSymmetryIndices s) = numberOfVertices m"
    and left: "\<forall>i \<in> set left. 0 \<le> i \<and> i < int (numberOfVertices m)"
  shows "((\<exists>s'. findVertexSides m left s = Some s') =
          (\<forall>i \<in> set left. \<exists>p. vec_at (vertexSymmetryIndices s) i = Some p \<and>
                                0 \<le> p \<and> p < int (numberOfVertices m))) \<and>
         ((\<exists>i \<in> set left. vec_at (vertexSymmetryIndices s) i = Some (- 1)) \<longrightarrow>
            findVertexSides m left s = None)"
proof -
  let ?n = "numberOfVertices m" and ?sym = "vertexSymmetryIndices s"
  have fwd: "\<forall>i \<in> set left. \<exists>p. vec_at ?sym i = Some p \<and> 0 \<le> p \<and> p < int ?n"
    if "findVertexSides m left s = Some s'" for s'
    using findVertexSides_cases [OF that] by blast
  have bwd: "\<exists>s'. findVertexSides m left s = Some s'"
    if pr: "\<forall>i \<in> set left. \<exists>p. vec_at ?sym i = Some p \<and> 0 \<le> p \<and> p < int ?n"
  proof -
    from left seedLeft_defined [of left "replicate ?n 0" "[]"]
    obtain q1 sides1 where sl: "seedLeft left ([], replicate ?n 0) = Some (q1, sides1)"
      by auto
    from seedLeft_effect [OF sl] have q1: "q1 = left" and l1: "length sides1 = ?n" by simp_all
    from floodSide_defined [OF ok refl len _ l1, of "replicate ?n False" q1 LEFT True] left q1
    obtain visited2 sides2
      where f1: "floodSide m ?sym LEFT True q1 (replicate ?n False, sides1) = Some (visited2, sides2)"
        and lv2: "length visited2 = ?n" and l2: "length sides2 = ?n"
      by auto
    from pr l2 seedRight_defined [of left ?sym sides2 "[]"]
    obtain q3 sides3 where sr: "seedRight ?sym left ([], sides2) = Some (q3, sides3)"
      by auto
    from seedRight_effect [OF sr] l2 have q3: "q3 = partnersOf ?sym left" and l3: "length sides3 = ?n"
      by simp_all
    from pr q3 have "\<forall>v \<in> set q3. 0 \<le> v \<and> v < int ?n" by (auto simp: partnersOf_def)
    from floodSide_defined [OF ok refl len lv2 l3 this, of RIGHT False]
    obtain visited4 sides4
      where f2: "floodSide m ?sym RIGHT False q3 (visited2, sides3) = Some (visited4, sides4)"
      by auto
    from sl f1 sr f2 show ?thesis by (simp add: findVertexSides_def)
  qed
  have iff: "(\<exists>s'. findVertexSides m left s = Some s') =
          (\<forall>i \<in> set left. \<exists>p. vec_at ?sym i = Some p \<and> 0 \<le> p \<and> p < int ?n)"
    using fwd bwd by blast
  have "findVertexSides m left s = None" if "\<exists>i \<in> set left. vec_at ?sym i = Some (- 1)"
  proof (cases "findVertexSides m left s")
    case None
    then show ?thesis .
  next
    case (Some s')
    from fwd [OF Some] that show ?thesis by auto
  qed
  with iff show ?thesis by blast
qed

theorem findVertexSides_in_bounds_witness:
  "meshVerticesOK stripAndQuad \<and>
   length (vertexSymmetryIndices stripResolved) = numberOfVertices stripAndQuad \<and>
   vec_at (vertexSymmetryIndices stripResolved) 0 = Some 4 \<and>
   (\<exists>s'. findVertexSides stripAndQuad [0] stripResolved = Some s') \<and>
   vec_at (vertexSymmetryIndices stripResolved) 10 = Some (- 1) \<and>
   findVertexSides stripAndQuad [10] stripResolved = None"
proof -
  have ok: "meshVerticesOK stripAndQuad" by code_simp
  have len: "length (vertexSymmetryIndices stripResolved) = numberOfVertices stripAndQuad" by code_simp
  have p0: "vec_at (vertexSymmetryIndices stripResolved) 0 = Some 4" by code_simp
  have p10: "vec_at (vertexSymmetryIndices stripResolved) 10 = Some (- 1)" by code_simp
  have n: "numberOfVertices stripAndQuad = 14" by (simp add: stripAndQuad_def)
  have l0: "\<forall>i \<in> set [0::int]. 0 \<le> i \<and> i < int (numberOfVertices stripAndQuad)" by (simp add: n)
  have l10: "\<forall>i \<in> set [10::int]. 0 \<le> i \<and> i < int (numberOfVertices stripAndQuad)" by (simp add: n)
  from findVertexSides_in_bounds [OF ok len l0] p0 n
  have a: "\<exists>s'. findVertexSides stripAndQuad [0] stripResolved = Some s'" by simp
  from findVertexSides_in_bounds [OF ok len l10] p10
  have b: "findVertexSides stripAndQuad [10] stripResolved = None" by simp
  from ok len p0 a p10 b show ?thesis by blast
qed

section \<open>The symmetry tables as partial involutions\<close>



lemma markPair_partners_involution:
  assumes mk: "markPair a b t = Some t'"
    and "vec_at (fst t) a = Some b" and "vec_at (fst t) b = Some a"
    and "vec_at (snd t) a = Some True" and "vec_at (snd t) b = Some True"
  shows "t' = t"
  using markPair_idem [OF assms(2-5)] mk by simp



subsection \<open>What each step changes\<close>

lemma markSymmetricalVertices_tables:
  assumes "markSymmetricalVertices i0 i1 s = Some s'"
  shows "markPair i0 i1 (vertexTable s) = Some (vertexTable s')"
    and "edgeTable s' = edgeTable s" and "faceTable s' = faceTable s"
  using markSymmetricalVertices_effect [OF assms]
  by (auto simp: vertexTable_def edgeTable_def faceTable_def)

lemma markSymmetricalEdges_tables:
  assumes "markSymmetricalEdges i0 i1 s = Some s'"
  shows "markPair i0 i1 (edgeTable s) = Some (edgeTable s')"
    and "vertexTable s' = vertexTable s" and "faceTable s' = faceTable s"
  using markSymmetricalEdges_effect [OF assms]
  by (auto simp: vertexTable_def edgeTable_def faceTable_def)

lemma markSymmetricalFaces_tables:
  assumes "markSymmetricalFaces i0 i1 s = Some s'"
  shows "markPair i0 i1 (faceTable s) = Some (faceTable s')"
    and "vertexTable s' = vertexTable s" and "edgeTable s' = edgeTable s"
  using markSymmetricalFaces_effect [OF assms]
  by (auto simp: vertexTable_def edgeTable_def faceTable_def)











lemma vertexTable_reset [simp]:
  "vertexTable (reset m) = (replicate (numberOfVertices m) (- 1), replicate (numberOfVertices m) False)"
  by (simp add: vertexTable_def reset_def)

lemma faceTable_reset [simp]:
  "faceTable (reset m) = (replicate (numberOfFaces m) (- 1), replicate (numberOfFaces m) False)"
  by (simp add: faceTable_def reset_def)



section \<open>Propagation stays inside the shell of the seed\<close>

lemma markPair_confined:
  assumes "markPair a b t = Some t'" and "confinedTo A t0 t" and "a \<in> A" and "b \<in> A"
  shows "confinedTo A t0 t'"
  using assms(2-) markPair_at(1,2) [OF assms(1)]
  unfolding confinedTo_def by (auto split: if_splits)

lemma shellClosed_vertex:
  assumes "shellClosed m V E F" and "v \<in> V" and "vec_at (vertexData m) v = Some vd"
  shows "set (vConnectedVertices vd) \<subseteq> V" and "set (vConnectedEdges vd) \<subseteq> E"
    and "set (siblingsOn vd f) \<subseteq> V"
proof -
  from assms have a: "set (vConnectedVertices vd) \<subseteq> V \<and> set (vConnectedEdges vd) \<subseteq> E \<and>
      (\<forall>fs \<in> set (faceVertexSiblings vd). set (snd fs) \<subseteq> V)"
    unfolding shellClosed_def by (auto split: option.splits)
  then show "set (vConnectedVertices vd) \<subseteq> V" "set (vConnectedEdges vd) \<subseteq> E" by simp_all
  show "set (siblingsOn vd f) \<subseteq> V"
  proof (cases "map_of (faceVertexSiblings vd) f")
    case None
    then show ?thesis by (simp add: siblingsOn_def)
  next
    case (Some vs)
    from map_of_SomeD [OF Some] a have "set vs \<subseteq> V" by force
    with Some show ?thesis by (simp add: siblingsOn_def)
  qed
qed

lemma shellClosed_edge:
  assumes "shellClosed m V E F" and "e \<in> E" and "vec_at (edgeData m) e = Some ed"
  shows "set (eConnectedVertices ed) \<subseteq> V" and "set (eConnectedFaces ed) \<subseteq> F"
  using assms unfolding shellClosed_def by (auto split: option.splits)

lemma shellClosed_face:
  assumes "shellClosed m V E F" and "f \<in> F" and "vec_at (faceData m) f = Some fd"
  shows "set (fConnectedVertices fd) \<subseteq> V" and "set (fConnectedEdges fd) \<subseteq> E"
  using assms unfolding shellClosed_def by (auto split: option.splits)

lemma confined_partner:
  assumes "confinedTo A t0 t" and "vec_at (fst t) c = Some p" and "0 \<le> p"
  shows "p \<in> A"
  using assms unfolding confinedTo_def by force

lemma sibling_in_shell:
  assumes cl: "shellClosed m V E F" and v: "v \<in> V"
    and sib: "getUnexaminedVertexSibling m v f s = Some n" and n: "n \<noteq> - 1"
  shows "n \<in> V"
proof -
  from sib obtain vd where vd: "vec_at (vertexData m) v = Some vd"
    and fu: "firstUnexamined (examinedVertices s) (siblingsOn vd f) = Some n"
    by (auto simp: getUnexaminedVertexSibling_def split: option.splits)
  from firstUnexamined_found [OF fu n] shellClosed_vertex(3) [OF cl v vd] show ?thesis by auto
qed

lemma sibling_vertex_in_range:
  assumes "getUnexaminedVertexSibling m v f s = Some n"
  shows "0 \<le> v"
  using assms
  by (auto simp: getUnexaminedVertexSibling_def split: option.splits dest: vec_at_in_range)

lemma walkFaceVertices_shell:
  "walkFaceVertices m facePair q s = Some s' \<Longrightarrow> shellClosed m V E F \<Longrightarrow> set q \<subseteq> V \<Longrightarrow>
     shellInv V E F s0 s \<Longrightarrow> shellInv V E F s0 s'"
proof (induction m facePair q s rule: walkFaceVertices.induct)
  case (1 m facePair s)
  then show ?case by simp
next
  case (2 m facePair vertex0 q s)
  note cl = "2.prems"(2) and inv = "2.prems"(4)
  from "2.prems"(3) have v0: "vertex0 \<in> V" and q: "set q \<subseteq> V" by simp_all
  from "2.prems"(1) obtain vertex1 nextVertex0 nextVertex1
    where a: "vec_at (vertexSymmetryIndices s) vertex0 = Some vertex1"
      and b: "getUnexaminedVertexSibling m vertex0 (fst facePair) s = Some nextVertex0"
      and c: "getUnexaminedVertexSibling m vertex1 (snd facePair) s = Some nextVertex1"
    by (auto split: option.splits)
  show ?case
  proof (cases "nextVertex0 = - 1 \<or> nextVertex1 = - 1")
    case True
    with "2.prems"(1) a b c have "walkFaceVertices m facePair q s = Some s'" by simp
    from "2.IH"(1) [OF a b c True this cl q inv] show ?thesis .
  next
    case False
    with "2.prems"(1) a b c obtain s1 where d: "markSymmetricalVertices nextVertex0 nextVertex1 s = Some s1"
      and e: "walkFaceVertices m facePair (q @ [nextVertex0]) s1 = Some s'"
      by (auto split: option.splits)
    note T = markSymmetricalVertices_tables [OF d]
    from inv have cv: "confinedTo V (vertexTable s0) (vertexTable s)" by (simp add: shellInv_def)
    from confined_partner [OF cv, of vertex0 vertex1] a sibling_vertex_in_range [OF c]
    have v1: "vertex1 \<in> V" by (simp add: vertexTable_def)
    from False sibling_in_shell [OF cl v0 b] sibling_in_shell [OF cl v1 c]
    have n: "nextVertex0 \<in> V" "nextVertex1 \<in> V" by simp_all
    from markPair_confined [OF T(1) cv n] inv T(2,3) have inv1: "shellInv V E F s0 s1"
      by (simp add: shellInv_def)
    from q n have "set (q @ [nextVertex0]) \<subseteq> V" by simp
    from "2.IH"(2) [OF a b c False d e cl this inv1] show ?thesis .
  qed
qed

lemma examinedOnFace_subset: "examinedOnFace ex vs = Some q \<Longrightarrow> set q \<subseteq> set vs"
  by (induction vs arbitrary: q) (auto split: option.splits if_splits)

lemma findSymmetricalVerticesOnFace_shell:
  assumes run: "findSymmetricalVerticesOnFace m facePair s = Some s'"
    and cl: "shellClosed m V E F" and f: "fst facePair \<in> F" and inv: "shellInv V E F s0 s"
  shows "shellInv V E F s0 s'"
proof -
  from run obtain fd q where fd: "vec_at (faceData m) (fst facePair) = Some fd"
    and q: "examinedOnFace (examinedVertices s) (fConnectedVertices fd) = Some q"
    and w: "walkFaceVertices m facePair q s = Some s'"
    by (auto simp: findSymmetricalVerticesOnFace_def split: bind_splits)
  from examinedOnFace_subset [OF q] shellClosed_face(1) [OF cl f fd] have "set q \<subseteq> V" by blast
  from walkFaceVertices_shell [OF w cl this inv] show ?thesis .
qed

lemma intersection_subset: "set (intersection a b) \<subseteq> set a"
  by (auto simp: intersection_def)

lemma completeEdge_shell:
  assumes run: "completeEdge m e (q, s) = Some (q', s')"
    and cl: "shellClosed m V E F" and e: "e \<in> E" and q: "set q \<subseteq> E \<times> E"
    and inv: "shellInv V E F s0 s"
  shows "shellInv V E F s0 s' \<and> set q' \<subseteq> E \<times> E"
proof (cases "q' = q \<and> s' = s")
  case True
  with q inv show ?thesis by simp
next
  case False
  with run obtain vertex0 vertex1 sharedEdges edgeIndex
    where pv: "partnerVertices m e s = Some (vertex0, vertex1)"
      and sh: "sharedEdgesOf m vertex0 vertex1 = Some sharedEdges"
      and ei: "vec_at sharedEdges 0 = Some edgeIndex"
      and mk: "markSymmetricalEdges e edgeIndex s = Some s'"
      and q': "q' = q \<or> q' = q @ [(e, edgeIndex)]"
    by (auto simp: completeEdge_def split: bind_splits if_splits prod.splits)
  from sh obtain vd0 vd1 :: VertexData where vd0: "vec_at (vertexData m) vertex0 = Some vd0"
    and se: "sharedEdges = intersection (vConnectedEdges vd0) (vConnectedEdges vd1)"
    by (auto simp: sharedEdgesOf_def split: bind_splits)
  from pv obtain c0 where "vec_at (vertexSymmetryIndices s) c0 = Some vertex0"
    by (auto simp: partnerVertices_def split: bind_splits)
  moreover from inv have cv: "confinedTo V (vertexTable s0) (vertexTable s)" by (simp add: shellInv_def)
  ultimately have "vertex0 \<in> V"
    using confined_partner [OF cv, of c0 vertex0] vec_at_in_range [OF vd0] by (simp add: vertexTable_def)
  from shellClosed_vertex(2) [OF cl this vd0] vec_at_mem [OF ei] se intersection_subset
  have g: "edgeIndex \<in> E" by blast
  note T = markSymmetricalEdges_tables [OF mk]
  from inv have "confinedTo E (edgeTable s0) (edgeTable s)" by (simp add: shellInv_def)
  from markPair_confined [OF T(1) this e g] inv T(2,3) have "shellInv V E F s0 s'"
    by (simp add: shellInv_def)
  moreover from q' q e g have "set q' \<subseteq> E \<times> E" by auto
  ultimately show ?thesis by simp
qed

lemma completeEdges_shell:
  "completeEdges m es (q, s) = Some (q', s') \<Longrightarrow> shellClosed m V E F \<Longrightarrow> set es \<subseteq> E \<Longrightarrow>
     set q \<subseteq> E \<times> E \<Longrightarrow> shellInv V E F s0 s \<Longrightarrow> shellInv V E F s0 s' \<and> set q' \<subseteq> E \<times> E"
proof (induction es arbitrary: q s)
  case Nil
  then show ?case by simp
next
  case (Cons e es)
  from Cons.prems(1) obtain q1 s1 where a: "completeEdge m e (q, s) = Some (q1, s1)"
    and b: "completeEdges m es (q1, s1) = Some (q', s')"
    by (auto split: option.splits)
  from Cons.prems(3) have e: "e \<in> E" and es: "set es \<subseteq> E" by simp_all
  from completeEdge_shell [OF a Cons.prems(2) e Cons.prems(4,5)]
  have "shellInv V E F s0 s1" "set q1 \<subseteq> E \<times> E" by simp_all
  from Cons.IH [OF b Cons.prems(2) es this(2,1)] show ?case .
qed

lemma findSymmetricalEdgesOnFace_shell:
  assumes run: "findSymmetricalEdgesOnFace m f (q, s) = Some (q', s')"
    and cl: "shellClosed m V E F" and f: "f \<in> F" and q: "set q \<subseteq> E \<times> E"
    and inv: "shellInv V E F s0 s"
  shows "shellInv V E F s0 s' \<and> set q' \<subseteq> E \<times> E"
proof -
  from run obtain fd where fd: "vec_at (faceData m) f = Some fd"
    and c: "completeEdges m (fConnectedEdges fd) (q, s) = Some (q', s')"
    by (auto simp: findSymmetricalEdgesOnFace_def split: option.splits)
  from completeEdges_shell [OF c cl shellClosed_face(2) [OF cl f fd] q inv] show ?thesis .
qed

lemma sharedUnexamined_from:
  "sharedUnexamined ex fs (f0, f1) = Some (g0, g1) \<Longrightarrow>
     (g0 = f0 \<or> g0 \<in> set fs) \<and> (g1 = f1 \<or> g1 \<in> set fs)"
proof (induction fs arbitrary: f0 f1)
  case Nil
  then show ?case by simp
next
  case (Cons f fs)
  then show ?case by (fastforce split: option.splits if_splits)
qed

lemma getUnexaminedFaces_shell:
  assumes run: "getUnexaminedFaces m edgePair s = Some (g0, g1)"
    and cl: "shellClosed m V E F" and e: "fst edgePair \<in> E" "snd edgePair \<in> E"
  shows "(g0 = - 1 \<or> g0 \<in> F) \<and> (g1 = - 1 \<or> g1 \<in> F)"
proof -
  from run obtain ed0 ed1 where ed: "vec_at (edgeData m) (fst edgePair) = Some ed0"
    "vec_at (edgeData m) (snd edgePair) = Some ed1"
    by (auto simp: getUnexaminedFaces_def split: bind_splits)
  note F0 = shellClosed_edge(2) [OF cl e(1) ed(1)] and F1 = shellClosed_edge(2) [OF cl e(2) ed(2)]
  let ?shared = "intersection (eConnectedFaces ed0) (eConnectedFaces ed1)"
  show ?thesis
  proof (cases "length ?shared > 0")
    case True
    with run ed have "sharedUnexamined (examinedFaces s) ?shared (- 1, - 1) = Some (g0, g1)"
      by (simp add: getUnexaminedFaces_def)
    from sharedUnexamined_from [OF this] intersection_subset [of "eConnectedFaces ed0"] F0
    show ?thesis by blast
  next
    case False
    with run ed have "firstUnexamined (examinedFaces s) (eConnectedFaces ed0) = Some g0"
      "firstUnexamined (examinedFaces s) (eConnectedFaces ed1) = Some g1"
      by (auto simp: getUnexaminedFaces_def getUnexaminedFace_def split: bind_splits)
    from firstUnexamined_found [OF this(1)] firstUnexamined_found [OF this(2)] F0 F1
    show ?thesis by blast
  qed
qed

lemma examineEdgePair_shell:
  assumes run: "examineEdgePair m edgePair (q, s) = Some (q', s')"
    and cl: "shellClosed m V E F" and e: "edgePair \<in> E \<times> E" and q: "set q \<subseteq> E \<times> E"
    and inv: "shellInv V E F s0 s"
  shows "shellInv V E F s0 s' \<and> set q' \<subseteq> E \<times> E"
proof -
  from e have e': "fst edgePair \<in> E" "snd edgePair \<in> E" by auto
  from run obtain s1 facesPair
    where mk: "markSymmetricalEdges (fst edgePair) (snd edgePair) s = Some s1"
      and fp: "getUnexaminedFaces m edgePair s1 = Some facesPair"
    by (auto simp: examineEdgePair_def split: bind_splits)
  note T1 = markSymmetricalEdges_tables [OF mk]
  from inv have "confinedTo E (edgeTable s0) (edgeTable s)" by (simp add: shellInv_def)
  from markPair_confined [OF T1(1) this e'] inv T1(2,3) have inv1: "shellInv V E F s0 s1"
    by (simp add: shellInv_def)
  show ?thesis
  proof (cases "fst facesPair = - 1 \<or> snd facesPair = - 1")
    case True
    with run mk fp have "s' = s1" "q' = q" by (simp_all add: examineEdgePair_def)
    with inv1 q show ?thesis by simp
  next
    case False
    with run mk fp obtain s2 s3
      where f: "markSymmetricalFaces (fst facesPair) (snd facesPair) s1 = Some s2"
        and v: "findSymmetricalVerticesOnFace m facesPair s2 = Some s3"
        and ed: "findSymmetricalEdgesOnFace m (fst facesPair) (q, s3) = Some (q', s')"
      by (auto simp: examineEdgePair_def split: bind_splits)
    from getUnexaminedFaces_shell [OF _ cl e', of s1 "fst facesPair" "snd facesPair"] fp False
    have fin: "fst facesPair \<in> F" "snd facesPair \<in> F" by simp_all
    note T2 = markSymmetricalFaces_tables [OF f]
    from inv1 have "confinedTo F (faceTable s0) (faceTable s1)" by (simp add: shellInv_def)
    from markPair_confined [OF T2(1) this fin] inv1 T2(2,3) have inv2: "shellInv V E F s0 s2"
      by (simp add: shellInv_def)
    from findSymmetricalVerticesOnFace_shell [OF v cl fin(1) inv2] have inv3: "shellInv V E F s0 s3" .
    from findSymmetricalEdgesOnFace_shell [OF ed cl fin(1) q inv3] show ?thesis .
  qed
qed

lemma drainEdgeQueue_shell:
  "drainEdgeQueue fuel m q s = Returned (Some s') \<Longrightarrow> shellClosed m V E F \<Longrightarrow>
     set q \<subseteq> E \<times> E \<Longrightarrow> shellInv V E F s0 s \<Longrightarrow> shellInv V E F s0 s'"
proof (induction fuel m q s rule: drainEdgeQueue.induct)
  case (1 fuel m s)
  then show ?case by simp
next
  case (2 m edgePair q s)
  then show ?case by simp
next
  case (3 fuel m edgePair q s)
  from "3.prems"(1) obtain q1 s1 where a: "examineEdgePair m edgePair (q, s) = Some (q1, s1)"
    and b: "drainEdgeQueue fuel m q1 s1 = Returned (Some s')"
    by (auto split: option.splits)
  from "3.prems"(3) have e: "edgePair \<in> E \<times> E" and q: "set q \<subseteq> E \<times> E" by simp_all
  from examineEdgePair_shell [OF a "3.prems"(2) e q "3.prems"(4)]
  have "shellInv V E F s0 s1" "set q1 \<subseteq> E \<times> E" by simp_all
  from "3.IH" [OF a refl b "3.prems"(2) this(2,1)] show ?case .
qed

lemma findFirstSymmetricalVertices_shell:
  assumes run: "findFirstSymmetricalVertices m selection s = Some s'"
    and cl: "shellClosed m V E F"
    and se: "fst (edgeIndices selection) \<in> E" "snd (edgeIndices selection) \<in> E"
    and sf: "fst (faceIndices selection) \<in> F" "snd (faceIndices selection) \<in> F"
    and sv: "fst (vertexIndices selection) \<in> V" "snd (vertexIndices selection) \<in> V"
    and inv: "shellInv V E F s0 s"
  shows "shellInv V E F s0 s'"
proof -
  from run obtain s1 s2 ed0 a0 a1 exa ed1 b0 b1 exb s3
    where m1: "markSymmetricalVertices (fst (vertexIndices selection)) (snd (vertexIndices selection)) s = Some s1"
      and m2: "markSymmetricalFaces (fst (faceIndices selection)) (snd (faceIndices selection)) s1 = Some s2"
      and e0: "vec_at (edgeData m) (fst (edgeIndices selection)) = Some ed0"
      and a0: "vec_at (eConnectedVertices ed0) 0 = Some a0"
      and a1: "vec_at (eConnectedVertices ed0) 1 = Some a1"
      and e1: "vec_at (edgeData m) (snd (edgeIndices selection)) = Some ed1"
      and b0: "vec_at (eConnectedVertices ed1) 0 = Some b0"
      and b1: "vec_at (eConnectedVertices ed1) 1 = Some b1"
      and m3: "markSymmetricalVertices (if exa then a1 else a0) (if exb then b1 else b0) s2 = Some s3"
      and w: "findSymmetricalVerticesOnFace m (faceIndices selection) s3 = Some s'"
    by (auto simp: findFirstSymmetricalVertices_def Let_def split: bind_splits)
  note T1 = markSymmetricalVertices_tables [OF m1]
  note T2 = markSymmetricalFaces_tables [OF m2]
  note T3 = markSymmetricalVertices_tables [OF m3]
  from inv have "confinedTo V (vertexTable s0) (vertexTable s)" by (simp add: shellInv_def)
  from markPair_confined [OF T1(1) this sv] inv T1(2,3) have inv1: "shellInv V E F s0 s1"
    by (simp add: shellInv_def)
  then have "confinedTo F (faceTable s0) (faceTable s1)" by (simp add: shellInv_def)
  from markPair_confined [OF T2(1) this sf] inv1 T2(2,3) have inv2: "shellInv V E F s0 s2"
    by (simp add: shellInv_def)
  from shellClosed_edge(1) [OF cl se(1) e0] vec_at_mem [OF a0] vec_at_mem [OF a1]
  have "(if exa then a1 else a0) \<in> V" by auto
  moreover from shellClosed_edge(1) [OF cl se(2) e1] vec_at_mem [OF b0] vec_at_mem [OF b1]
  have "(if exb then b1 else b0) \<in> V" by auto
  moreover from inv2 have "confinedTo V (vertexTable s0) (vertexTable s2)" by (simp add: shellInv_def)
  ultimately have "confinedTo V (vertexTable s0) (vertexTable s3)"
    using markPair_confined [OF T3(1)] by blast
  with inv2 T3(2,3) have inv3: "shellInv V E F s0 s3" by (simp add: shellInv_def)
  from findSymmetricalVerticesOnFace_shell [OF w cl sf(1) inv3] show ?thesis .
qed

lemma confinedTo_reset: "confinedTo A (replicate n (- 1), replicate n False) (replicate n (- 1), replicate n False)"
  by (auto simp: confinedTo_def vec_at_replicate split: if_splits)

lemma edgeTable_reset [simp]:
  "edgeTable (reset m) = (replicate (numberOfEdges m) (- 1), replicate (numberOfEdges m) False)"
  by (simp add: edgeTable_def reset_def)

lemma findSymmetricalVertices_shell:
  assumes run: "findSymmetricalVertices fuel m selection (reset m) = Returned (Some s')"
    and cl: "shellClosed m V E F"
    and se: "fst (edgeIndices selection) \<in> E" "snd (edgeIndices selection) \<in> E"
    and sf: "fst (faceIndices selection) \<in> F" "snd (faceIndices selection) \<in> F"
    and sv: "fst (vertexIndices selection) \<in> V" "snd (vertexIndices selection) \<in> V"
  shows "shellInv V E F (reset m) s'"
proof -
  let ?s0 = "if leftVertexIndex selection \<noteq> - 1
             then (reset m)\<lparr>leftSideVertexIndices := leftSideVertexIndices (reset m) @ [leftVertexIndex selection]\<rparr>
             else reset m"
  from run obtain sa where a: "findFirstSymmetricalVertices m selection ?s0 = Some sa"
    and b: "drainEdgeQueue fuel m [edgeIndices selection] sa = Returned (Some s')"
    by (auto simp: findSymmetricalVertices_def Let_def split: option.splits)
  have "vertexTable ?s0 = vertexTable (reset m)" "edgeTable ?s0 = edgeTable (reset m)"
    "faceTable ?s0 = faceTable (reset m)"
    by (simp_all add: vertexTable_def edgeTable_def faceTable_def)
  then have "shellInv V E F (reset m) ?s0"
    unfolding shellInv_def using confinedTo_reset by simp
  from findFirstSymmetricalVertices_shell [OF a cl se sf sv this] have "shellInv V E F (reset m) sa" .
  moreover from se have "set [edgeIndices selection] \<subseteq> E \<times> E" by (cases "edgeIndices selection") simp
  ultimately show ?thesis using drainEdgeQueue_shell [OF b cl] by blast
qed

lemma floodSide_shell:
  "floodSide m symIdx sd seam q (visited, sides) = Some (visited', sides') \<Longrightarrow>
     shellClosed m V E F \<Longrightarrow> set q \<subseteq> V \<Longrightarrow> c \<notin> V \<Longrightarrow> vec_at sides' c = vec_at sides c"
proof (induction m symIdx sd seam q "(visited, sides)" arbitrary: visited sides rule: floodSide.induct)
  case (1 m symIdx sd seam)
  then show ?case by simp
next
  case (2 m symIdx sd seam vertexIndex q visited sides)
  note cl = "2.prems"(2) and c = "2.prems"(4)
  from "2.prems"(3) have v: "vertexIndex \<in> V" and q: "set q \<subseteq> V" by simp_all
  with c have ne: "c \<noteq> vertexIndex" by auto
  from "2.prems"(1) obtain vis where vis: "vec_at visited vertexIndex = Some vis"
    by (auto split: option.splits)
  show ?case
  proof (cases vis)
    case True
    with "2.prems"(1) vis have run: "floodSide m symIdx sd seam q (visited, sides) = Some (visited', sides')"
      by simp
    from "2.hyps"(1) [OF vis True run cl q c] show ?thesis .
  next
    case False
    with "2.prems"(1) vis obtain visited1 partner
      where v1: "vec_set visited vertexIndex True = Some visited1"
        and p: "vec_at symIdx vertexIndex = Some partner"
      by (auto split: option.splits)
    show ?thesis
    proof (cases "partner = vertexIndex")
      case True
      with "2.prems"(1) vis False v1 p obtain sides1
        where s1: "vec_set sides vertexIndex CENTER = Some sides1"
          and run: "floodSide m symIdx sd seam q (visited1, sides1) = Some (visited', sides')"
        by (auto split: option.splits)
      from "2.hyps"(2) [OF vis False v1 p True s1 run cl q c] vec_at_vec_set [OF s1, of c] ne
      show ?thesis by simp
    next
      case np: False
      with "2.prems"(1) vis False v1 p obtain sides1 vd ns
        where s1: "vec_set sides vertexIndex sd = Some sides1"
          and vd: "vec_at (vertexData m) vertexIndex = Some vd"
          and ns: "pushNeighbours seam symIdx visited1 vertexIndex (vConnectedVertices vd) = Some ns"
          and run: "floodSide m symIdx sd seam (q @ ns) (visited1, sides1) = Some (visited', sides')"
        by (auto split: option.splits)
      from pushNeighbours_subset [OF ns] shellClosed_vertex(1) [OF cl v vd] q
      have "set (q @ ns) \<subseteq> V" by auto
      from "2.hyps"(3) [OF vis False v1 p np s1 vd ns run cl this c] vec_at_vec_set [OF s1, of c] ne
      show ?thesis by simp
    qed
  qed
qed

lemma findVertexSides_shell:
  assumes run: "findVertexSides m left s = Some s'"
    and cl: "shellClosed m V E F" and left: "set left \<subseteq> V"
    and cv: "confinedTo V t0 (vertexTable s)" and c: "c \<notin> V"
  shows "vec_at (vertexSides s') c = vec_at (replicate (numberOfVertices m) CENTER) c"
proof -
  let ?n = "numberOfVertices m" and ?sym = "vertexSymmetryIndices s"
  from findVertexSides_run [OF run] obtain q1 sides1 visited2 sides2 q3 sides3 visited4 sides4
    where sl: "seedLeft left ([], replicate ?n 0) = Some (q1, sides1)"
      and f1: "floodSide m ?sym LEFT True q1 (replicate ?n False, sides1) = Some (visited2, sides2)"
      and sr: "seedRight ?sym left ([], sides2) = Some (q3, sides3)"
      and f2: "floodSide m ?sym RIGHT False q3 (visited2, sides3) = Some (visited4, sides4)"
      and s': "s' = s\<lparr>vertexSides := sides4\<rparr>"
    by blast
  note L = seedLeft_effect [OF sl] and R = seedRight_effect [OF sr]
  from L left c have 1: "vec_at sides1 c = vec_at (replicate ?n 0) c" and q1: "set q1 \<subseteq> V" by auto
  from floodSide_shell [OF f1 cl q1 c] have 2: "vec_at sides2 c = vec_at sides1 c" .
  have q3: "set q3 \<subseteq> V"
  proof
    fix p assume "p \<in> set q3"
    with R obtain i where i: "i \<in> set left" "(case vec_at ?sym i of None \<Rightarrow> - 1 | Some p \<Rightarrow> p) = p"
      by (auto simp: partnersOf_def)
    with R obtain p' where "vec_at ?sym i = Some p'" "0 \<le> p'" by blast
    with i confined_partner [OF cv, of i p'] show "p \<in> V" by (simp add: vertexTable_def)
  qed
  with R c have 3: "vec_at sides3 c = vec_at sides2 c" by auto
  from floodSide_shell [OF f2 cl q3 c] have "vec_at sides4 c = vec_at sides3 c" .
  with 1 2 3 s' show ?thesis by simp
qed

lemma forEach_keeps:
  assumes "\<And>i s s'. f i s = Some s' \<Longrightarrow> g s' = g s"
  shows "forEach f js s = Some s' \<Longrightarrow> g s' = g s"
proof (induction js arbitrary: s)
  case Nil
  then show ?case by simp
next
  case (Cons j js)
  from Cons.prems obtain s1 where a: "f j s = Some s1" and b: "forEach f js s1 = Some s'"
    by (auto split: option.splits)
  from Cons.IH [OF b] assms [OF a] show ?case by simp
qed

lemma finalizeEdge_tables:
  "finalizeEdge m i s = Some s' \<Longrightarrow>
     (vertexTable s', edgeTable s', faceTable s') = (vertexTable s, edgeTable s, faceTable s)"
  by (auto simp: finalizeEdge_def vertexTable_def edgeTable_def faceTable_def
           split: option.splits prod.splits)

lemma finalizeFace_tables:
  "finalizeFace m i s = Some s' \<Longrightarrow>
     (vertexTable s', edgeTable s', faceTable s') = (vertexTable s, edgeTable s, faceTable s)"
  by (auto simp: finalizeFace_def Let_def vertexTable_def edgeTable_def faceTable_def
           split: bind_splits)

lemma finalizeSymmetry_tables:
  assumes "finalizeSymmetry m s = Some s'"
  shows "vertexTable s' = vertexTable s" and "edgeTable s' = edgeTable s" and "faceTable s' = faceTable s"
    and "vertexSides s' = vertexSides s"
proof -
  from assms obtain s1 where e: "forEach (finalizeEdge m) (map int [0..<numberOfEdges m]) s = Some s1"
    and f: "forEach (finalizeFace m) (map int [0..<numberOfFaces m]) s1 = Some s'"
    by (auto simp: finalizeSymmetry_def split: bind_splits)
  from forEach_keeps [where g = "\<lambda>s. (vertexTable s, edgeTable s, faceTable s)", OF finalizeEdge_tables e]
    forEach_keeps [where g = "\<lambda>s. (vertexTable s, edgeTable s, faceTable s)", OF finalizeFace_tables f]
  show "vertexTable s' = vertexTable s" "edgeTable s' = edgeTable s" "faceTable s' = faceTable s"
    by simp_all
  from forEach_finalizeEdge_frame [OF e] forEach_finalizeFace_frame [OF f]
  show "vertexSides s' = vertexSides s" by simp
qed

lemma finalizeSymmetry_edge_at:
  assumes "finalizeSymmetry m s = Some s'" and "0 \<le> i" and "i < int (numberOfEdges m)"
  shows "\<exists>sv0 sv1. endpointSides m i (vertexSides s) = Some (sv0, sv1) \<and>
           vec_at (edgeSides s') i =
             (case edgeSideOf sv0 sv1 of None \<Rightarrow> vec_at (edgeSides s) i | Some side \<Rightarrow> Some side)"
proof -
  from assms(1) obtain s1 where e: "forEach (finalizeEdge m) (map int [0..<numberOfEdges m]) s = Some s1"
    and f: "forEach (finalizeFace m) (map int [0..<numberOfFaces m]) s1 = Some s'"
    by (auto simp: finalizeSymmetry_def split: bind_splits)
  from forEach_finalizeFace_frame [OF f] have "edgeSides s' = edgeSides s1" by simp
  with forEach_finalizeEdge_at [OF e distinct_upto upto_index [OF assms(2,3)]] show ?thesis by simp
qed

lemma finalizeSymmetry_face_at:
  assumes "finalizeSymmetry m s = Some s'" and "0 \<le> i" and "i < int (numberOfFaces m)"
  shows "\<exists>fd svs. vec_at (faceData m) i = Some fd \<and>
           sidesOf (vertexSides s) (fConnectedVertices fd) = Some svs \<and>
           vec_at (faceSides s') i =
             Some ((if contains svs LEFT then LEFT else CENTER) + (if contains svs RIGHT then RIGHT else CENTER))"
proof -
  from assms(1) obtain s1 where e: "forEach (finalizeEdge m) (map int [0..<numberOfEdges m]) s = Some s1"
    and f: "forEach (finalizeFace m) (map int [0..<numberOfFaces m]) s1 = Some s'"
    by (auto simp: finalizeSymmetry_def split: bind_splits)
  from forEach_finalizeEdge_frame [OF e] have "vertexSides s1 = vertexSides s" by simp
  with forEach_finalizeFace_at [OF f distinct_upto upto_index [OF assms(2,3)]] show ?thesis by simp
qed

lemma finalizeSymmetry_centre_edge:
  assumes fin: "finalizeSymmetry m s = Some s'" and i: "0 \<le> i" "i < int (numberOfEdges m)"
    and ends: "\<And>ed c. vec_at (edgeData m) i = Some ed \<Longrightarrow> c \<in> set (eConnectedVertices ed) \<Longrightarrow>
                 vec_at (vertexSides s) c = Some CENTER \<or> vec_at (vertexSides s) c = None"
  shows "vec_at (edgeSides s') i = Some CENTER"
proof -
  from finalizeSymmetry_edge_at [OF fin i]
  obtain sv0 sv1 where r: "endpointSides m i (vertexSides s) = Some (sv0, sv1)"
    and c: "sv0 = CENTER \<and> sv1 = CENTER \<longrightarrow> vec_at (edgeSides s') i = Some CENTER"
    by (auto simp: edgeSideOf_def)
  from r obtain ed c0 c1 where "vec_at (edgeData m) i = Some ed"
    "vec_at (eConnectedVertices ed) 0 = Some c0" "vec_at (vertexSides s) c0 = Some sv0"
    "vec_at (eConnectedVertices ed) 1 = Some c1" "vec_at (vertexSides s) c1 = Some sv1"
    by (auto simp: endpointSides_def split: bind_splits)
  with ends [of ed c0] ends [of ed c1] vec_at_mem [of "eConnectedVertices ed"]
  have "sv0 = CENTER" "sv1 = CENTER" by auto
  with c show ?thesis by simp
qed

lemma finalizeSymmetry_centre_face:
  assumes fin: "finalizeSymmetry m s = Some s'" and i: "0 \<le> i" "i < int (numberOfFaces m)"
    and loop: "\<And>fd c. vec_at (faceData m) i = Some fd \<Longrightarrow> c \<in> set (fConnectedVertices fd) \<Longrightarrow>
                 vec_at (vertexSides s) c = Some CENTER \<or> vec_at (vertexSides s) c = None"
  shows "vec_at (faceSides s') i = Some CENTER"
proof -
  from finalizeSymmetry_face_at [OF fin i]
  obtain fd svs where fd: "vec_at (faceData m) i = Some fd"
    and sv: "sidesOf (vertexSides s) (fConnectedVertices fd) = Some svs"
    and v0: "vec_at (faceSides s') i =
             Some ((if contains svs LEFT then LEFT else CENTER) + (if contains svs RIGHT then RIGHT else CENTER))"
    by blast
  from v0 sidesOf_set [OF sv]
  have v: "vec_at (faceSides s') i =
             Some ((if \<exists>v \<in> set (fConnectedVertices fd). vec_at (vertexSides s) v = Some LEFT then 1 else 0)
                 + (if \<exists>v \<in> set (fConnectedVertices fd). vec_at (vertexSides s) v = Some RIGHT then - 1 else 0))"
    by (simp add: contains_def)
  from loop [OF fd] have "\<not> (\<exists>v \<in> set (fConnectedVertices fd). vec_at (vertexSides s) v = Some LEFT)"
    "\<not> (\<exists>v \<in> set (fConnectedVertices fd). vec_at (vertexSides s) v = Some RIGHT)"
    by fastforce+
  with v show ?thesis by simp
qed

lemma strip_final: "finalizeSymmetry stripAndQuad stripSided = Some stripFinal"
  by code_simp

text \<open>
  C8: let A and B be two shells of the mesh (each closed under the adjacency lists)
  without a common vertex, edge or face.  When the seed edges, faces and vertices and
  the left vertices all lie in A, then after the propagation engine (on a freshly reset
  table), \<^verbatim>\<open>findVertexSides\<close> and \<^verbatim>\<open>finalizeSymmetry\<close> every vertex, edge and face of B
  is unexamined, has the partner \<open>-1\<close> and has the side CENTER.
\<close>

theorem other_shell_untouched:
  assumes clA: "shellClosed m VA EA FA" and clB: "shellClosed m VB EB FB"
    and dis: "VA \<inter> VB = {}" "EA \<inter> EB = {}" "FA \<inter> FB = {}"
    and se: "fst (edgeIndices selection) \<in> EA" "snd (edgeIndices selection) \<in> EA"
    and sf: "fst (faceIndices selection) \<in> FA" "snd (faceIndices selection) \<in> FA"
    and sv: "fst (vertexIndices selection) \<in> VA" "snd (vertexIndices selection) \<in> VA"
    and left: "set left \<subseteq> VA"
    and run: "findSymmetricalVertices fuel m selection (reset m) = Returned (Some s1)"
    and sides: "findVertexSides m left s1 = Some s2"
    and fin: "finalizeSymmetry m s2 = Some s3"
  shows "(\<forall>v \<in> VB. 0 \<le> v \<and> v < int (numberOfVertices m) \<longrightarrow>
            vec_at (examinedVertices s3) v = Some False \<and>
            vec_at (vertexSymmetryIndices s3) v = Some (- 1) \<and>
            vec_at (vertexSides s3) v = Some CENTER) \<and>
         (\<forall>e \<in> EB. 0 \<le> e \<and> e < int (numberOfEdges m) \<longrightarrow>
            vec_at (examinedEdges s3) e = Some False \<and>
            vec_at (edgeSymmetryIndices s3) e = Some (- 1) \<and>
            vec_at (edgeSides s3) e = Some CENTER) \<and>
         (\<forall>f \<in> FB. 0 \<le> f \<and> f < int (numberOfFaces m) \<longrightarrow>
            vec_at (examinedFaces s3) f = Some False \<and>
            vec_at (faceSymmetryIndices s3) f = Some (- 1) \<and>
            vec_at (faceSides s3) f = Some CENTER)"
proof -
  from findSymmetricalVertices_shell [OF run clA se sf sv]
  have inv: "shellInv VA EA FA (reset m) s1" .
  then have cv: "confinedTo VA (vertexTable (reset m)) (vertexTable s1)"
    and ce: "confinedTo EA (edgeTable (reset m)) (edgeTable s1)"
    and cf: "confinedTo FA (faceTable (reset m)) (faceTable s1)"
    by (simp_all add: shellInv_def)
  from findVertexSides_run [OF sides] have t2: "vertexTable s2 = vertexTable s1"
    "edgeTable s2 = edgeTable s1" "faceTable s2 = faceTable s1"
    by (auto simp: vertexTable_def edgeTable_def faceTable_def)
  note t3 = finalizeSymmetry_tables [OF fin]
  have side: "vec_at (vertexSides s2) c = vec_at (replicate (numberOfVertices m) CENTER) c"
    if "c \<in> VB" for c
    using findVertexSides_shell [OF sides clA left cv, of c] that dis(1) by auto
  have V: "vec_at (examinedVertices s3) v = Some False \<and>
           vec_at (vertexSymmetryIndices s3) v = Some (- 1) \<and>
           vec_at (vertexSides s3) v = Some CENTER"
    if v: "v \<in> VB" "0 \<le> v \<and> v < int (numberOfVertices m)" for v
  proof -
    from v dis(1) have "v \<notin> VA" by auto
    with cv have "vec_at (fst (vertexTable s1)) v = vec_at (fst (vertexTable (reset m))) v"
      "vec_at (snd (vertexTable s1)) v = vec_at (snd (vertexTable (reset m))) v"
      by (simp_all add: confinedTo_def)
    with t2 t3 v(2) side [OF v(1)] show ?thesis
      by (simp add: vertexTable_def vec_at_replicate reset_def)
  qed
  have E: "vec_at (examinedEdges s3) e = Some False \<and>
           vec_at (edgeSymmetryIndices s3) e = Some (- 1) \<and>
           vec_at (edgeSides s3) e = Some CENTER"
    if e: "e \<in> EB" "0 \<le> e \<and> e < int (numberOfEdges m)" for e
  proof -
    from e dis(2) have "e \<notin> EA" by auto
    with ce have "vec_at (fst (edgeTable s1)) e = vec_at (fst (edgeTable (reset m))) e"
      "vec_at (snd (edgeTable s1)) e = vec_at (snd (edgeTable (reset m))) e"
      by (simp_all add: confinedTo_def)
    with t2 t3 e(2) have tab: "vec_at (examinedEdges s3) e = Some False"
      "vec_at (edgeSymmetryIndices s3) e = Some (- 1)"
      by (simp_all add: edgeTable_def vec_at_replicate reset_def)
    have "vec_at (edgeSides s3) e = Some CENTER"
    proof (rule finalizeSymmetry_centre_edge [OF fin])
      show "0 \<le> e" "e < int (numberOfEdges m)" using e(2) by simp_all
    next
      fix ed c assume "vec_at (edgeData m) e = Some ed" "c \<in> set (eConnectedVertices ed)"
      with shellClosed_edge(1) [OF clB e(1)] have "c \<in> VB" by auto
      from side [OF this]
      show "vec_at (vertexSides s2) c = Some CENTER \<or> vec_at (vertexSides s2) c = None"
        by (simp add: vec_at_replicate)
    qed
    with tab show ?thesis by simp
  qed
  have F: "vec_at (examinedFaces s3) f = Some False \<and>
           vec_at (faceSymmetryIndices s3) f = Some (- 1) \<and>
           vec_at (faceSides s3) f = Some CENTER"
    if f: "f \<in> FB" "0 \<le> f \<and> f < int (numberOfFaces m)" for f
  proof -
    from f dis(3) have "f \<notin> FA" by auto
    with cf have "vec_at (fst (faceTable s1)) f = vec_at (fst (faceTable (reset m))) f"
      "vec_at (snd (faceTable s1)) f = vec_at (snd (faceTable (reset m))) f"
      by (simp_all add: confinedTo_def)
    with t2 t3 f(2) have tab: "vec_at (examinedFaces s3) f = Some False"
      "vec_at (faceSymmetryIndices s3) f = Some (- 1)"
      by (simp_all add: faceTable_def vec_at_replicate reset_def)
    have "vec_at (faceSides s3) f = Some CENTER"
    proof (rule finalizeSymmetry_centre_face [OF fin])
      show "0 \<le> f" "f < int (numberOfFaces m)" using f(2) by simp_all
    next
      fix fd c assume "vec_at (faceData m) f = Some fd" "c \<in> set (fConnectedVertices fd)"
      with shellClosed_face(1) [OF clB f(1)] have "c \<in> VB" by auto
      from side [OF this]
      show "vec_at (vertexSides s2) c = Some CENTER \<or> vec_at (vertexSides s2) c = None"
        by (simp add: vec_at_replicate)
    qed
    with tab show ?thesis by simp
  qed
  from V E F show ?thesis by blast
qed

theorem other_shell_untouched_witness:
  "shellClosed stripAndQuad {0..9} {0..12} {0..3} \<and>
   shellClosed stripAndQuad {10..13} {13..16} {4} \<and>
   findSymmetricalVertices 18 stripAndQuad stripSeed (reset stripAndQuad) = Returned (Some stripResolved) \<and>
   findVertexSides stripAndQuad [0] stripResolved = Some stripSided \<and>
   finalizeSymmetry stripAndQuad stripSided = Some stripFinal \<and>
   vec_at (examinedVertices stripFinal) 10 = Some False \<and>
   vec_at (vertexSymmetryIndices stripFinal) 10 = Some (- 1) \<and>
   vec_at (vertexSides stripFinal) 10 = Some CENTER \<and>
   vec_at (examinedEdges stripFinal) 13 = Some False \<and>
   vec_at (edgeSymmetryIndices stripFinal) 13 = Some (- 1) \<and>
   vec_at (edgeSides stripFinal) 13 = Some CENTER \<and>
   vec_at (examinedFaces stripFinal) 4 = Some False \<and>
   vec_at (faceSymmetryIndices stripFinal) 4 = Some (- 1) \<and>
   vec_at (faceSides stripFinal) 4 = Some CENTER"
proof -
  have clA: "shellClosed stripAndQuad {0..9} {0..12} {0..3}" by code_simp
  have clB: "shellClosed stripAndQuad {10..13} {13..16} {4}" by code_simp
  have dis: "{0..9} \<inter> {10..13} = ({} :: int set)" "{0..12} \<inter> {13..16} = ({} :: int set)"
    "{0..3} \<inter> {4} = ({} :: int set)" by auto
  have se: "fst (edgeIndices stripSeed) \<in> {0..12}" "snd (edgeIndices stripSeed) \<in> {0..12}"
    by (simp_all add: stripSeed_def)
  have sf: "fst (faceIndices stripSeed) \<in> {0..3}" "snd (faceIndices stripSeed) \<in> {0..3}"
    by (simp_all add: stripSeed_def)
  have sv: "fst (vertexIndices stripSeed) \<in> {0..9}" "snd (vertexIndices stripSeed) \<in> {0..9}"
    by (simp_all add: stripSeed_def)
  have left: "set [0::int] \<subseteq> {0..9}" by simp
  have n: "numberOfVertices stripAndQuad = 14" "numberOfEdges stripAndQuad = 17"
    "numberOfFaces stripAndQuad = 5" by (simp_all add: stripAndQuad_def)
  from other_shell_untouched [OF clA clB dis se sf sv left strip_run strip_sided strip_final] n
  have "vec_at (examinedVertices stripFinal) 10 = Some False \<and>
        vec_at (vertexSymmetryIndices stripFinal) 10 = Some (- 1) \<and>
        vec_at (vertexSides stripFinal) 10 = Some CENTER"
    "vec_at (examinedEdges stripFinal) 13 = Some False \<and>
     vec_at (edgeSymmetryIndices stripFinal) 13 = Some (- 1) \<and>
     vec_at (edgeSides stripFinal) 13 = Some CENTER"
    "vec_at (examinedFaces stripFinal) 4 = Some False \<and>
     vec_at (faceSymmetryIndices stripFinal) 4 = Some (- 1) \<and>
     vec_at (faceSides stripFinal) 4 = Some CENTER"
    by simp_all
  with clA clB strip_run strip_sided strip_final show ?thesis by simp
qed

section \<open>The edge table on a mesh with simple edge adjacency\<close>










lemma mutual_tables: "t' = t \<Longrightarrow> mutual t' p = mutual t p"
  by simp












lemma strip_edge_table: "partialInvolution (edgeTable stripResolved)"
  by code_simp

text \<open>
  Why the edge table needs a simple mesh: on the strip with the double edge the seed is
  as before, and face edge completion pairs edge 17 with edge 3 although edge 3 is
  already the partner of edge 0.
\<close>

lemma double_edge_breaks_edge_table:
  "\<not> joinsSeedVertices stripDoubleEdge stripSeed 9 \<and>
   \<not> joinsSeedVertices stripDoubleEdge stripSeed 11 \<and>
   seedOnEdges stripDoubleEdge stripSeed \<and>
   \<not> meshEdgesOK stripDoubleEdge \<and>
   (case findSymmetricalVertices 19 stripDoubleEdge stripSeed (reset stripDoubleEdge) of
      Returned (Some s) \<Rightarrow>
        vec_at (examinedEdges s) 17 = Some True \<and>
        vec_at (edgeSymmetryIndices s) 17 = Some 3 \<and>
        vec_at (edgeSymmetryIndices s) 3 = Some 0 \<and>
        \<not> partialInvolution (edgeTable s)
    | _ \<Rightarrow> False)"
  by code_simp

section \<open>The symmetry tables after propagation\<close>

text \<open>
  The seed the engine is built for is a pair of two symmetric edges, each with one of
  the two symmetric seed vertices on it.  An edge that joins the two seed vertices is
  its own mirror image and cannot be one of such a pair; \<open>joinsSeedVertices\<close> is
  false of both seed edges of such a seed.  For a seed outside this domain the engine
  promises nothing: on the single quad, seeded with edge 0 (which joins the seed
  vertices 0 and 1) as both seed edges, seed resolution takes vertex 1 as the other
  end point of both seed edges and marks it its own partner, after vertex 0 was given
  the partner 1.
\<close>

lemma self_mirrored_seed_edge_run:
  "findSymmetricalVertices 5 quadMesh quadSeed (reset quadMesh) = Returned (Some quadResolved) \<and>
   vec_at (examinedVertices quadResolved) 0 = Some True \<and>
   vec_at (vertexSymmetryIndices quadResolved) 0 = Some 1 \<and>
   vec_at (vertexSymmetryIndices quadResolved) 1 = Some 1 \<and>
   \<not> partialInvolution (vertexTable quadResolved)"
  by code_simp



end
